theory Spec2Isabelle
  imports Complex_Main "HOL-Library.Multiset"
begin

section \<open>Request bodies and the run options schema (server/src/validation.ts)\<close>

text \<open>
  A request body is what \<^verbatim>\<open>express.json()\<close> hands to the route: a parsed JSON value.
  A JSON number is a finite IEEE double, and every finite double is a rational, so a
  number is modelled by its exact value in \<open>rat\<close>; the comparisons of the schema
  (against 0, 1, 100000 and 1000000) and \<^verbatim>\<open>Number.isInteger\<close> are exact on it.
  (A literal too large for a double parses to Infinity, which the schema rejects as
  it rejects the large rational.) An object is its list of members in source order;
  \<^verbatim>\<open>JSON.parse\<close> keeps the last of several members with one key.
\<close>

datatype json =
    JNull
  | JBool bool
  | JNum rat
  | JStr string
  | JArr "json list"
  | JObj "(string \<times> json) list"

definition lookup :: "(string \<times> json) list \<Rightarrow> string \<Rightarrow> json option" where
  "lookup kvs k = map_of (rev kvs) k"

text \<open>The issue codes of zod that this schema can produce.\<close>

datatype issue_code = invalid_type | too_small | too_big | invalid_string | invalid_enum_value

type_synonym issue = "string list \<times> issue_code"

text \<open>
  \<^verbatim>\<open>\w\<close> in a JavaScript regular expression without the unicode flag is
  \<^verbatim>\<open>[A-Za-z0-9_]\<close>. A string is a list of bytes here; a character outside ASCII
  is no word character in either reading, so the verdict of the expression is the same
  (and with it the verdict of the schema, whatever the length of such a string counts).
\<close>

definition word_char :: "char \<Rightarrow> bool" where
  "word_char c =
     (let n = (of_char c :: nat)
      in (48 \<le> n \<and> n \<le> 57) \<or> (65 \<le> n \<and> n \<le> 90) \<or> n = 95 \<or> (97 \<le> n \<and> n \<le> 122))"

text \<open>\<^verbatim>\<open>/^[\w-]+$/\<close>: one or more characters, each a word character or a hyphen.\<close>

definition exp_regex :: "string \<Rightarrow> bool" where
  "exp_regex s = (s \<noteq> [] \<and> list_all (\<lambda>c. word_char c \<or> c = CHR ''-'') s)"

text \<open>
  \<^verbatim>\<open>exp: z.string().min(1).max(100).regex(/^[\w-]+$/)\<close>. A value that is no string
  (a missing key included) is an \<open>invalid_type\<close>; on a string every check runs.
\<close>

definition exp_schema :: "json option \<Rightarrow> issue_code list + string" where
  "exp_schema v =
     (case v of
        Some (JStr s) \<Rightarrow>
          (let issues =
                 (if length s < 1 then [too_small] else [])
               @ (if length s > 100 then [too_big] else [])
               @ (if exp_regex s then [] else [invalid_string])
           in if issues = [] then Inr s else Inl issues)
      | _ \<Rightarrow> Inl [invalid_type])"

text \<open>\<^verbatim>\<open>variant: z.enum(['baseline', 'deopt', 'fixed'])\<close>\<close>

definition variant_schema :: "json option \<Rightarrow> issue_code list + string" where
  "variant_schema v =
     (case v of
        Some (JStr s) \<Rightarrow>
          (if s \<in> set [''baseline'', ''deopt'', ''fixed''] then Inr s
           else Inl [invalid_enum_value])
      | _ \<Rightarrow> Inl [invalid_type])"

text \<open>
  \<^verbatim>\<open>.optional().default(d)\<close>: the default replaces an undefined input (a missing
  key; JSON has no undefined value), and the inner schema then parses the result. A
  \<^verbatim>\<open>null\<close> is not undefined and reaches the inner schema.
\<close>

definition with_default :: "json \<Rightarrow> json option \<Rightarrow> json" where
  "with_default d v = (case v of None \<Rightarrow> d | Some j \<Rightarrow> j)"

text \<open>\<^verbatim>\<open>z.boolean()\<close>\<close>

definition boolean_schema :: "json \<Rightarrow> issue_code list + bool" where
  "boolean_schema j = (case j of JBool b \<Rightarrow> Inr b | _ \<Rightarrow> Inl [invalid_type])"

text \<open>
  \<^verbatim>\<open>z.number().int().min(lo).max(hi)\<close>: the \<open>int\<close> check is
  \<^verbatim>\<open>Number.isInteger\<close> (reported as an \<open>invalid_type\<close>: expected integer, received
  float), and both bounds are inclusive.
\<close>

definition isInteger :: "rat \<Rightarrow> bool" where
  "isInteger x = (of_int \<lfloor>x\<rfloor> = x)"

definition int_min_max_schema :: "rat \<Rightarrow> rat \<Rightarrow> json \<Rightarrow> issue_code list + rat" where
  "int_min_max_schema lo hi j =
     (case j of
        JNum x \<Rightarrow>
          (let issues =
                 (if isInteger x then [] else [invalid_type])
               @ (if x < lo then [too_small] else [])
               @ (if x > hi then [too_big] else [])
           in if issues = [] then Inr x else Inl issues)
      | _ \<Rightarrow> Inl [invalid_type])"

definition trace_schema :: "json option \<Rightarrow> issue_code list + bool" where
  "trace_schema v = boolean_schema (with_default (JBool False) v)"

definition profile_schema :: "json option \<Rightarrow> issue_code list + bool" where
  "profile_schema v = boolean_schema (with_default (JBool False) v)"

definition warmup_schema :: "json option \<Rightarrow> issue_code list + rat" where
  "warmup_schema v = int_min_max_schema 0 100000 (with_default (JNum 1000) v)"

definition repeat_schema :: "json option \<Rightarrow> issue_code list + rat" where
  "repeat_schema v = int_min_max_schema 1 1000000 (with_default (JNum 100000) v)"

text \<open>
  \<^verbatim>\<open>RunOptions\<close> of server/src/types.ts. Its fields \<^verbatim>\<open>trace\<close>, \<^verbatim>\<open>profile\<close>,
  \<^verbatim>\<open>warmup\<close> and \<^verbatim>\<open>repeat\<close> are also the fields of \<^verbatim>\<open>RunMetadata.options\<close>, so
  that nested record is declared first and \<open>RunOptions\<close> extends it; the selectors are
  then the same for both. The field \<^verbatim>\<open>exp\<close> is \<open>exp'\<close> here (\<open>exp\<close> is the
  exponential function of HOL).
\<close>

record Options =
  trace :: bool
  profile :: bool
  warmup :: rat
  repeat :: rat

record RunOptions = Options +
  exp' :: string
  variant :: string

definition issues_at :: "string \<Rightarrow> issue_code list + 'a \<Rightarrow> issue list" where
  "issues_at key r = (case r of Inl cs \<Rightarrow> map (Pair [key]) cs | Inr _ \<Rightarrow> [])"

text \<open>
  \<^verbatim>\<open>runOptionsSchema.safeParse(body)\<close>: the body must be an object; each key of the
  shape is parsed (keys outside the shape are stripped), the issues of all keys are
  collected in the order of the shape, and the parse succeeds when there is none.
\<close>

definition safeParse :: "json \<Rightarrow> issue list + RunOptions" where
  "safeParse body =
     (case body of
        JObj kvs \<Rightarrow>
          (let e = exp_schema (lookup kvs ''exp'');
               v = variant_schema (lookup kvs ''variant'');
               t = trace_schema (lookup kvs ''trace'');
               p = profile_schema (lookup kvs ''profile'');
               w = warmup_schema (lookup kvs ''warmup'');
               r = repeat_schema (lookup kvs ''repeat'')
           in case (e, v, t, p, w, r) of
                (Inr e', Inr v', Inr t', Inr p', Inr w', Inr r') \<Rightarrow>
                  Inr \<lparr>trace = t', profile = p', warmup = w', repeat = r',
                       exp' = e', variant = v'\<rparr>
              | _ \<Rightarrow>
                  Inl (issues_at ''exp'' e @ issues_at ''variant'' v @ issues_at ''trace'' t
                       @ issues_at ''profile'' p @ issues_at ''warmup'' w
                       @ issues_at ''repeat'' r))
      | _ \<Rightarrow> Inl [([], invalid_type)])"


section \<open>Run records (server/src/types.ts)\<close>

datatype RunStatus = Queued | Running | Completed | Failed

text \<open>
  The source keeps \<^verbatim>\<open>new Date().toISOString()\<close> in a timestamp and reads it back with
  \<^verbatim>\<open>new Date(...).getTime()\<close>; the string is an injective rendering of the milliseconds
  since the epoch, which is what a timestamp is here. An optional field is an \<open>option\<close>.
\<close>

record Timestamps =
  queued :: int
  started :: "int option"
  completed :: "int option"

record Environment =
  nodeVersion :: string
  v8Version :: string
  platform :: string
  arch :: string
  gitSha :: "string option"

record Results =
  exitCode :: int
  durationMs :: int

record Artifacts =
  stdout :: "string option"
  stderr :: "string option"
  cpuProfile :: "string option"

text \<open>
  \<^verbatim>\<open>RunMetadata\<close>; \<^verbatim>\<open>id\<close>, \<^verbatim>\<open>experiment\<close> and \<^verbatim>\<open>variant\<close> carry a prime
  (\<open>id\<close> is the identity of HOL, \<open>experiment\<close> a keyword of Isabelle, \<open>variant\<close> the
  field of \<open>RunOptions\<close>).
\<close>

record RunMetadata =
  id' :: string
  experiment' :: string
  variant' :: string
  options :: Options
  status :: RunStatus
  timestamps :: Timestamps
  environment :: Environment
  results :: "Results option"
  artifacts :: Artifacts

text \<open>
  \<^verbatim>\<open>QueuedRun\<close> of RunService.ts: \<^verbatim>\<open>{id, options, metadata}\<close> (\<open>run_id\<close> and
  \<open>run_options\<close> here). The metadata object is mutable and shared by reference between
  the queue entry, the worker and a pending \<^verbatim>\<open>saveMetadata\<close>; the objects live in a
  heap, and the queue holds addresses.
\<close>

type_synonym addr = nat

record QueuedRun =
  run_id :: string
  run_options :: RunOptions
  metadata :: RunMetadata

section \<open>The outside world\<close>

text \<open>
  A file of \<^verbatim>\<open>artifacts/runs\<close>, as \<^verbatim>\<open>JSON.parse\<close> sees it: text that does not parse, or
  the record that \<^verbatim>\<open>JSON.stringify(metadata)\<close> wrote. (The service writes these files
  itself; text that parses to something other than a record is not considered.)
\<close>

datatype stored = Unparsable | Json RunMetadata

text \<open>What the rejected promise of \<^verbatim>\<open>execa\<close> carries, as far as the source reads it
  (\<^verbatim>\<open>exitCode\<close> is undefined when the child was never spawned or was killed by a signal),
  with the flag \<^verbatim>\<open>timedOut\<close> that execa sets when its \<^verbatim>\<open>timeout\<close> option killed the child.\<close>

record ExecaError =
  exitCode' :: "int option"
  message :: string
  timedOut :: bool

datatype child_result = Resolved | Rejected ExecaError

text \<open>
  Everything a segment of code (from one \<^verbatim>\<open>await\<close> to the next) reads from outside:
  \<^verbatim>\<open>randomUUID()\<close>, \<^verbatim>\<open>new Date()\<close>, \<^verbatim>\<open>Date.now()\<close>, the four \<^verbatim>\<open>process\<close> fields, whether
  the awaited \<^verbatim>\<open>mkdir\<close> succeeded, whether the \<^verbatim>\<open>writeFile\<close> issued next succeeds, and how
  the child process ended.
\<close>

record inputs =
  randomUUID :: string
  new_Date :: int
  Date_now :: int
  process_version :: string
  process_versions_v8 :: string
  process_platform :: string
  process_arch :: string
  mkdir_ok :: bool
  writeFile_ok :: bool
  child :: child_result

text \<open>The events the service emits (\<^verbatim>\<open>this.emit(...)\<close>), with their arguments.\<close>

datatype emitted =
    run_start string
  | run_stdout string string
  | run_stderr string string
  | run_error string string
  | run_complete string RunMetadata

text \<open>The replies of \<^verbatim>\<open>POST /api/runs\<close>: 201 with the id, 400 with the issues, and the
  error handler's 500 behind \<^verbatim>\<open>next(error)\<close>.\<close>

datatype response = Created string | BadRequest "issue list" | ServerError

text \<open>
  The four calls of \<^verbatim>\<open>saveMetadata\<close>: in \<^verbatim>\<open>createRun\<close> (line 51), at the start of
  \<^verbatim>\<open>executeRun\<close> (line 128), at its end (line 208), and in the \<^verbatim>\<open>catch\<close> of
  \<^verbatim>\<open>processQueue\<close> (line 113).
\<close>

datatype call_site = SaveInitial | SaveRunning | SaveFinal | SaveCaught

text \<open>
  A suspended activation: inside \<^verbatim>\<open>saveMetadata\<close> at \<^verbatim>\<open>await mkdir\<close> or at
  \<^verbatim>\<open>await writeFile\<close> (with the fate of the write), or in \<^verbatim>\<open>executeRun\<close> at
  \<^verbatim>\<open>await result\<close> (with \<^verbatim>\<open>startTime\<close>).
\<close>

datatype task =
    AwaitMkdir call_site addr
  | AwaitWrite call_site addr bool
  | AwaitChild addr int

text \<open>
  The state: the three fields of \<^verbatim>\<open>RunService\<close>, the heap of run objects, the files of
  \<^verbatim>\<open>artifacts/runs\<close>, the suspended activations, and the logs of what was emitted and
  replied.
\<close>

record state =
  queue :: "addr list"
  currentRun :: "addr option"
  processing :: bool
  heap :: "addr \<rightharpoonup> QueuedRun"
  next_addr :: addr
  files :: "string \<rightharpoonup> stored"
  tasks :: "task list"
  emitted_log :: "emitted list"
  responses :: "response list"

definition init :: state where
  "init = \<lparr>queue = [], currentRun = None, processing = False, heap = Map.empty,
           next_addr = 0, files = Map.empty, tasks = [], emitted_log = [],
           responses = []\<rparr>"

section \<open>RunService (server/src/services/RunService.ts)\<close>

text \<open>
  An \<^verbatim>\<open>async\<close> function runs without interruption from one \<^verbatim>\<open>await\<close> to the next, so
  every function below is one such segment: it takes the state and what the segment
  reads from outside, and returns the state at the next \<^verbatim>\<open>await\<close>.
\<close>

subsection \<open>saveMetadata\<close>

text \<open>
  \<^verbatim>\<open>saveMetadata\<close> awaits \<^verbatim>\<open>mkdir\<close>, then serialises the metadata object as it is at that
  moment and awaits \<^verbatim>\<open>writeFile\<close> on \<^verbatim>\<open>runs/<id>.json\<close>. The files of a directory are
  written in the order the writes are issued: a write takes effect when it is issued,
  and one that fails leaves the file as it was. (A failed write that cut the file short
  would leave text that does not parse, which holds no status.)
\<close>

definition runs_file :: "string \<Rightarrow> string" where
  "runs_file i = i @ ''.json''"

definition writeFile :: "RunMetadata \<Rightarrow> state \<Rightarrow> state" where
  "writeFile m s = s\<lparr>files := (files s)(runs_file (id' m) \<mapsto> Json m)\<rparr>"

definition suspend :: "task \<Rightarrow> state \<Rightarrow> state" where
  "suspend t s = s\<lparr>tasks := tasks s @ [t]\<rparr>"

definition emit :: "emitted \<Rightarrow> state \<Rightarrow> state" where
  "emit e s = s\<lparr>emitted_log := emitted_log s @ [e]\<rparr>"

definition reply :: "response \<Rightarrow> state \<Rightarrow> state" where
  "reply r s = s\<lparr>responses := responses s @ [r]\<rparr>"

text \<open>Assignments to the metadata object at an address (nothing at an address that
  holds no object: the segments below only meet addresses that do).\<close>

definition update_metadata :: "addr \<Rightarrow> (RunMetadata \<Rightarrow> RunMetadata) \<Rightarrow> state \<Rightarrow> state" where
  "update_metadata a f s =
     (case heap s a of
        None \<Rightarrow> s
      | Some r \<Rightarrow> s\<lparr>heap := (heap s)(a \<mapsto> r\<lparr>metadata := f (metadata r)\<rparr>)\<rparr>)"

subsection \<open>createRun, lines 20 to 51\<close>

definition new_metadata :: "RunOptions \<Rightarrow> inputs \<Rightarrow> RunMetadata" where
  "new_metadata opts i =
     \<lparr>id' = randomUUID i,
      experiment' = exp' opts,
      variant' = variant opts,
      options = \<lparr>trace = trace opts, profile = profile opts,
                 warmup = warmup opts, repeat = repeat opts\<rparr>,
      status = Queued,
      timestamps = \<lparr>queued = new_Date i, started = None, completed = None\<rparr>,
      environment = \<lparr>nodeVersion = process_version i,
                     v8Version = process_versions_v8 i,
                     platform = process_platform i,
                     arch = process_arch i,
                     gitSha = None\<rparr>,
      results = None,
      artifacts = \<lparr>stdout = None, stderr = None, cpuProfile = None\<rparr>\<rparr>"

definition createRun :: "RunOptions \<Rightarrow> inputs \<Rightarrow> state \<Rightarrow> state" where
  "createRun opts i s =
     (let a = next_addr s;
          queuedRun = \<lparr>run_id = randomUUID i, run_options = opts,
                       metadata = new_metadata opts i\<rparr>
      in suspend (AwaitMkdir SaveInitial a)
           (s\<lparr>heap := (heap s)(a \<mapsto> queuedRun),
              next_addr := Suc a,
              queue := queue s @ [a]\<rparr>))"

subsection \<open>executeRun\<close>

text \<open>Lines 123 to 128: the run becomes \<^verbatim>\<open>running\<close> and the record is saved.\<close>

definition executeRun :: "addr \<Rightarrow> inputs \<Rightarrow> state \<Rightarrow> state" where
  "executeRun a i s =
     suspend (AwaitMkdir SaveRunning a)
       (update_metadata a
          (\<lambda>m. m\<lparr>status := Running,
                 timestamps := (timestamps m)\<lparr>started := Some (new_Date i)\<rparr>\<rparr>) s)"

text \<open>Lines 131 to 167: \<^verbatim>\<open>run:start\<close> is emitted, the child is spawned, and the
  function awaits it. (\<^verbatim>\<open>execa\<close> reports a failure to spawn through the promise.)\<close>

definition executeRun_spawn :: "addr \<Rightarrow> inputs \<Rightarrow> state \<Rightarrow> state" where
  "executeRun_spawn a i s =
     (case heap s a of
        None \<Rightarrow> s
      | Some r \<Rightarrow> suspend (AwaitChild a (Date_now i)) (emit (run_start (run_id r)) s))"

text \<open>The data handlers of lines 155 to 164, while the child runs.\<close>

definition on_data :: "addr \<Rightarrow> bool \<Rightarrow> string \<Rightarrow> state \<Rightarrow> state" where
  "on_data a is_stderr chunk s =
     (case heap s a of
        None \<Rightarrow> s
      | Some r \<Rightarrow>
          emit (if is_stderr then run_stderr (run_id r) chunk
                else run_stdout (run_id r) chunk) s)"

text \<open>\<^verbatim>\<open>error.exitCode || 1\<close> and \<^verbatim>\<open>error.message || 'Unknown error'\<close>: undefined, 0
  and the empty string are falsy.\<close>

definition exitCode_or_1 :: "ExecaError \<Rightarrow> int" where
  "exitCode_or_1 e = (case exitCode' e of None \<Rightarrow> 1 | Some c \<Rightarrow> if c = 0 then 1 else c)"

definition message_or_unknown :: "ExecaError \<Rightarrow> string" where
  "message_or_unknown e = (if message e = [] then ''Unknown error'' else message e)"

text \<open>Lines 169 to 192, the child's promise resolved, and lines 194 to 205, it was
  rejected; the metadata after either.\<close>

definition settled_metadata :: "RunOptions \<Rightarrow> int \<Rightarrow> inputs \<Rightarrow> RunMetadata \<Rightarrow> RunMetadata" where
  "settled_metadata opts startTime i m =
     (case child i of
        Resolved \<Rightarrow>
          m\<lparr>status := Completed,
            timestamps := (timestamps m)\<lparr>completed := Some (new_Date i)\<rparr>,
            results := Some \<lparr>exitCode = 0, durationMs = Date_now i - startTime\<rparr>,
            artifacts :=
              \<lparr>stdout = Some (exp' opts @ ''/'' @ variant opts @ ''/latest/stdout.log''),
               stderr = (if trace opts
                         then Some (exp' opts @ ''/'' @ variant opts @ ''/latest/trace.log'')
                         else None),
               cpuProfile = (if profile opts
                             then Some (exp' opts @ ''/'' @ variant opts
                                        @ ''/latest/*.cpuprofile'')
                             else None)\<rparr>\<rparr>
      | Rejected error \<Rightarrow>
          m\<lparr>status := Failed,
            timestamps := (timestamps m)\<lparr>completed := Some (new_Date i)\<rparr>,
            results := Some \<lparr>exitCode = exitCode_or_1 error,
                              durationMs = Date_now i - startTime\<rparr>\<rparr>)"

text \<open>Lines 169 to 208: the metadata is settled, \<^verbatim>\<open>run:error\<close> is emitted after a
  rejection, and the record is saved.\<close>

definition executeRun_settle :: "addr \<Rightarrow> int \<Rightarrow> inputs \<Rightarrow> state \<Rightarrow> state" where
  "executeRun_settle a startTime i s =
     (case heap s a of
        None \<Rightarrow> s
      | Some r \<Rightarrow>
          (let s1 = update_metadata a (settled_metadata (run_options r) startTime i) s;
               s2 = (case child i of
                       Resolved \<Rightarrow> s1
                     | Rejected error \<Rightarrow>
                         emit (run_error (run_id r) (message_or_unknown error)) s1)
           in suspend (AwaitMkdir SaveFinal a) s2))"

text \<open>Line 209.\<close>

definition executeRun_complete :: "addr \<Rightarrow> state \<Rightarrow> state" where
  "executeRun_complete a s =
     (case heap s a of
        None \<Rightarrow> s
      | Some r \<Rightarrow> emit (run_complete (run_id r) (metadata r)) s)"

subsection \<open>processQueue\<close>

text \<open>The head of the \<^verbatim>\<open>while\<close> loop (lines 103 to 108): with an empty queue the loop is
  left and \<^verbatim>\<open>processing\<close> is reset (line 119); otherwise the first run is shifted out,
  becomes \<^verbatim>\<open>currentRun\<close>, and \<^verbatim>\<open>executeRun\<close> starts.\<close>

definition loop :: "inputs \<Rightarrow> state \<Rightarrow> state" where
  "loop i s =
     (case queue s of
        [] \<Rightarrow> s\<lparr>processing := False\<rparr>
      | run # rest \<Rightarrow> executeRun run i (s\<lparr>queue := rest, currentRun := Some run\<rparr>))"

text \<open>Lines 100 to 102.\<close>

definition processQueue :: "inputs \<Rightarrow> state \<Rightarrow> state" where
  "processQueue i s = (if processing s then s else loop i (s\<lparr>processing := True\<rparr>))"

text \<open>The \<^verbatim>\<open>catch\<close> of lines 109 to 113.\<close>

definition processQueue_catch :: "addr \<Rightarrow> inputs \<Rightarrow> state \<Rightarrow> state" where
  "processQueue_catch a i s =
     suspend (AwaitMkdir SaveCaught a)
       (update_metadata a
          (\<lambda>m. m\<lparr>status := Failed,
                 timestamps := (timestamps m)\<lparr>completed := Some (new_Date i)\<rparr>\<rparr>) s)"

text \<open>Line 116, and back to the head of the loop.\<close>

definition next_iteration :: "inputs \<Rightarrow> state \<Rightarrow> state" where
  "next_iteration i s = loop i (s\<lparr>currentRun := None\<rparr>)"

subsection \<open>Resuming a suspended activation\<close>

text \<open>After a \<^verbatim>\<open>saveMetadata\<close> that returned: \<^verbatim>\<open>createRun\<close> (lines 54 to 58) calls
  \<^verbatim>\<open>processQueue\<close> unless \<^verbatim>\<open>processing\<close> is set and returns the id, which the route
  sends with status 201;
  \<^verbatim>\<open>executeRun\<close> goes on to spawn the child, or to emit \<^verbatim>\<open>run:complete\<close> and return to
  the loop; the \<^verbatim>\<open>catch\<close> of the loop goes on to the next iteration.\<close>

fun saved :: "call_site \<Rightarrow> addr \<Rightarrow> inputs \<Rightarrow> state \<Rightarrow> state" where
  "saved SaveInitial a i s =
     (case heap s a of
        None \<Rightarrow> s
      | Some r \<Rightarrow>
          reply (Created (run_id r)) (if \<not> processing s then processQueue i s else s))"
| "saved SaveRunning a i s = executeRun_spawn a i s"
| "saved SaveFinal a i s = next_iteration i (executeRun_complete a s)"
| "saved SaveCaught a i s = next_iteration i s"

text \<open>After a \<^verbatim>\<open>saveMetadata\<close> that threw: \<^verbatim>\<open>createRun\<close> rejects and the route answers
  through \<^verbatim>\<open>next(error)\<close>; in \<^verbatim>\<open>executeRun\<close> both calls stand outside its
  \<^verbatim>\<open>try\<close>, so the exception reaches the \<^verbatim>\<open>catch\<close> of the loop; thrown from inside that
  \<^verbatim>\<open>catch\<close>, it ends \<^verbatim>\<open>processQueue\<close> with \<^verbatim>\<open>processing\<close> still set.\<close>

fun threw :: "call_site \<Rightarrow> addr \<Rightarrow> inputs \<Rightarrow> state \<Rightarrow> state" where
  "threw SaveInitial a i s = reply ServerError s"
| "threw SaveRunning a i s = processQueue_catch a i s"
| "threw SaveFinal a i s = processQueue_catch a i s"
| "threw SaveCaught a i s = s"

fun resume :: "task \<Rightarrow> inputs \<Rightarrow> state \<Rightarrow> state" where
  "resume (AwaitMkdir site a) i s =
     (if mkdir_ok i
      then (case heap s a of
              None \<Rightarrow> s
            | Some r \<Rightarrow>
                suspend (AwaitWrite site a (writeFile_ok i))
                  (if writeFile_ok i then writeFile (metadata r) s else s))
      else threw site a i s)"
| "resume (AwaitWrite site a ok) i s = (if ok then saved site a i s else threw site a i s)"
| "resume (AwaitChild a startTime) i s = executeRun_settle a startTime i s"

section \<open>The routes of /api/runs\<close>

text \<open>\<^verbatim>\<open>POST /api/runs\<close>, lines 40 to 53: a body that fails validation is answered with
  status 400 and the issues, and \<^verbatim>\<open>createRun\<close> is not called.\<close>

definition post_runs :: "json \<Rightarrow> inputs \<Rightarrow> state \<Rightarrow> state" where
  "post_runs body i s =
     (case safeParse body of
        Inl issues \<Rightarrow> reply (BadRequest issues) s
      | Inr opts \<Rightarrow> createRun opts i s)"

text \<open>
  What can happen next: a request arrives, the \<open>k\<close>-th suspended activation is resumed,
  or the child awaited by the \<open>k\<close>-th activation writes to stdout or stderr.
\<close>

datatype event =
    POST json inputs
  | Resume nat inputs
  | Data nat bool string

definition remove_task :: "nat \<Rightarrow> state \<Rightarrow> state" where
  "remove_task k s = s\<lparr>tasks := take k (tasks s) @ drop (Suc k) (tasks s)\<rparr>"

fun step :: "state \<Rightarrow> event \<Rightarrow> state" where
  "step s (POST body i) = post_runs body i s"
| "step s (Resume k i) =
     (if k < length (tasks s) then resume (tasks s ! k) i (remove_task k s) else s)"
| "step s (Data k is_stderr chunk) =
     (if k < length (tasks s)
      then (case tasks s ! k of
              AwaitChild a startTime \<Rightarrow> on_data a is_stderr chunk s
            | _ \<Rightarrow> s)
      else s)"

definition run :: "event list \<Rightarrow> state" where
  "run evs = foldl step init evs"

text \<open>\<^verbatim>\<open>getRun\<close>: a file that is missing or does not parse gives \<^verbatim>\<open>null\<close>.\<close>

definition getRun :: "(string \<rightharpoonup> stored) \<Rightarrow> string \<Rightarrow> RunMetadata option" where
  "getRun fs i = (case fs (runs_file i) of Some (Json m) \<Rightarrow> Some m | _ \<Rightarrow> None)"

text \<open>
  \<^verbatim>\<open>GET /api/runs/:id/stream\<close>, lines 65 to 132. The reply is 404, or an event stream:
  the events written before the handler returns, and whether the handler ended the
  stream (it then registers no listener) or left it open with its four listeners
  registered.
\<close>

datatype sse =
    status_event RunStatus
  | complete_event RunMetadata
  | stdout_event string
  | stderr_event string
  | error_event string

datatype stream = NotFound | Ended "sse list" | Listening "sse list"

definition get_stream :: "(string \<rightharpoonup> stored) \<Rightarrow> string \<Rightarrow> stream" where
  "get_stream fs i =
     (case getRun fs i of
        None \<Rightarrow> NotFound
      | Some r \<Rightarrow>
          (let written = [status_event (status r)]
           in if status r = Completed \<or> status r = Failed
              then Ended (written @ [complete_event r])
              else Listening written))"

text \<open>The listeners of lines 92 to 116, for a stream opened on run \<open>i\<close>: what an emitted
  event makes them write, and whether the stream is ended (by \<^verbatim>\<open>onComplete\<close>).\<close>

fun listeners :: "string \<Rightarrow> emitted \<Rightarrow> sse list \<times> bool" where
  "listeners i (run_stdout runId chunk) = (if runId = i then [stdout_event chunk] else [], False)"
| "listeners i (run_stderr runId chunk) = (if runId = i then [stderr_event chunk] else [], False)"
| "listeners i (run_complete runId m) =
     (if runId = i then ([complete_event m], True) else ([], False))"
| "listeners i (run_error runId e) = (if runId = i then [error_event e] else [], False)"
| "listeners i (run_start runId) = ([], False)"

section \<open>listRuns\<close>

definition endsWith :: "string \<Rightarrow> string \<Rightarrow> bool" where
  "endsWith s suffix =
     (length suffix \<le> length s \<and> drop (length s - length suffix) s = suffix)"

text \<open>
  \<^verbatim>\<open>Array.prototype.sort\<close> with a comparator is a stable sort: \<open>a\<close> stays before \<open>b\<close>
  unless the comparator is positive on \<open>(a, b)\<close>. With a comparator that is consistent,
  as a difference of integers is, stability fixes the result, which an insertion from
  the right computes.
\<close>

fun insert_by :: "('a \<Rightarrow> 'a \<Rightarrow> int) \<Rightarrow> 'a \<Rightarrow> 'a list \<Rightarrow> 'a list" where
  "insert_by cmp x [] = [x]"
| "insert_by cmp x (y # ys) =
     (if cmp x y \<le> 0 then x # y # ys else y # insert_by cmp x ys)"

fun sort_by :: "('a \<Rightarrow> 'a \<Rightarrow> int) \<Rightarrow> 'a list \<Rightarrow> 'a list" where
  "sort_by cmp [] = []"
| "sort_by cmp (x # xs) = insert_by cmp x (sort_by cmp xs)"

text \<open>Line 81: \<^verbatim>\<open>new Date(b.timestamps.queued).getTime() - new Date(a.timestamps.queued).getTime()\<close>\<close>

definition newest_first :: "RunMetadata \<Rightarrow> RunMetadata \<Rightarrow> int" where
  "newest_first a b = queued (timestamps b) - queued (timestamps a)"

text \<open>Lines 70 to 77: a file that cannot be read or does not parse is logged and
  skipped.\<close>

fun read_runs :: "(string \<rightharpoonup> stored) \<Rightarrow> string list \<Rightarrow> RunMetadata list" where
  "read_runs fs [] = []"
| "read_runs fs (f # rest) =
     (case fs f of
        Some (Json m) \<Rightarrow> m # read_runs fs rest
      | _ \<Rightarrow> read_runs fs rest)"

text \<open>
  \<^verbatim>\<open>listRuns\<close>: \<open>readdir\<close> is what \<^verbatim>\<open>mkdir\<close> and \<^verbatim>\<open>readdir\<close> gave, the names found in
  \<^verbatim>\<open>artifacts/runs\<close> in the order of the directory, or \<open>None\<close> when either threw (the
  outer \<^verbatim>\<open>catch\<close> then returns the empty list).
\<close>

definition listRuns :: "string list option \<Rightarrow> (string \<rightharpoonup> stored) \<Rightarrow> RunMetadata list" where
  "listRuns readdir fs =
     (case readdir of
        None \<Rightarrow> []
      | Some names \<Rightarrow>
          sort_by newest_first (read_runs fs (filter (\<lambda>f. endsWith f ''.json'') names)))"

text \<open>The order of the listing: \<open>a\<close> may stand before \<open>b\<close>.\<close>

definition newer_or_same :: "RunMetadata \<Rightarrow> RunMetadata \<Rightarrow> bool" where
  "newer_or_same a b = (queued (timestamps b) \<le> queued (timestamps a))"

section \<open>Invariants of the worker loop\<close>

text \<open>
  The suspended activations of \<^verbatim>\<open>processQueue\<close> (with the \<^verbatim>\<open>executeRun\<close> it awaits) are
  those that do not wait inside the \<^verbatim>\<open>saveMetadata\<close> of \<^verbatim>\<open>createRun\<close>.
\<close>

fun worker_task :: "task \<Rightarrow> bool" where
  "worker_task (AwaitMkdir site a) = (site \<noteq> SaveInitial)"
| "worker_task (AwaitWrite site a ok) = (site \<noteq> SaveInitial)"
| "worker_task (AwaitChild a startTime) = True"

fun task_addr :: "task \<Rightarrow> addr" where
  "task_addr (AwaitMkdir site a) = a"
| "task_addr (AwaitWrite site a ok) = a"
| "task_addr (AwaitChild a startTime) = a"

text \<open>Where the worker waits between line 126, which sets \<^verbatim>\<open>running\<close>, and the end of
  line 167.\<close>

fun running_phase :: "task \<Rightarrow> bool" where
  "running_phase (AwaitMkdir site a) = (site = SaveRunning)"
| "running_phase (AwaitWrite site a ok) = (site = SaveRunning)"
| "running_phase (AwaitChild a startTime) = True"

text \<open>Where the worker waits for a write of the terminal record that has succeeded.\<close>

fun saved_terminal :: "task \<Rightarrow> bool" where
  "saved_terminal (AwaitWrite site a ok) = (ok \<and> (site = SaveFinal \<or> site = SaveCaught))"
| "saved_terminal (AwaitMkdir site a) = False"
| "saved_terminal (AwaitChild a startTime) = False"

text \<open>A run object with status \<^verbatim>\<open>running\<close> at an address, and a stored record with status
  \<^verbatim>\<open>running\<close> under a file name.\<close>

definition running_at :: "state \<Rightarrow> addr \<Rightarrow> bool" where
  "running_at s a = (\<exists>r. heap s a = Some r \<and> status (metadata r) = Running)"

definition stored_running :: "state \<Rightarrow> string \<Rightarrow> bool" where
  "stored_running s k = (\<exists>m. files s k = Some (Json m) \<and> status m = Running)"

text \<open>Every object lies below \<open>next_addr\<close>, and every object with status \<^verbatim>\<open>queued\<close> is
  in the queue.\<close>

definition base_inv :: "state \<Rightarrow> bool" where
  "base_inv s =
     ((\<forall>a. heap s a \<noteq> None \<longrightarrow> a < next_addr s)
      \<and> (\<forall>a r. heap s a = Some r \<longrightarrow> status (metadata r) = Queued \<longrightarrow> a \<in> set (queue s)))"

text \<open>
  The invariant: at most one activation of the worker is suspended; while one is,
  \<^verbatim>\<open>processing\<close> is set and \<^verbatim>\<open>currentRun\<close> is its run; an object is \<^verbatim>\<open>running\<close> only while
  the worker waits on it between lines 126 and 167; and a stored record is
  \<^verbatim>\<open>running\<close> only under the file name of \<^verbatim>\<open>currentRun\<close>, while \<^verbatim>\<open>processing\<close> is set and
  no successful write of the terminal record is awaited.
\<close>

definition inv :: "state \<Rightarrow> bool" where
  "inv s =
     (base_inv s
      \<and> length (filter worker_task (tasks s)) \<le> 1
      \<and> (\<forall>t \<in> set (tasks s). worker_task t \<longrightarrow>
            processing s \<and> currentRun s = Some (task_addr t))
      \<and> (\<forall>a. running_at s a \<longrightarrow>
            (\<exists>t \<in> set (tasks s). running_phase t \<and> task_addr t = a))
      \<and> (\<forall>k. stored_running s k \<longrightarrow>
            processing s
            \<and> (\<exists>a r. currentRun s = Some a \<and> heap s a = Some r
                     \<and> k = runs_file (id' (metadata r)))
            \<and> (\<forall>t \<in> set (tasks s). \<not> saved_terminal t)))"

text \<open>
  The state inside a segment of the worker, whose own activation is not in \<open>tasks\<close>:
  the worker runs on \<open>a\<close>; \<open>rm\<close> says whether \<open>a\<close> may be \<^verbatim>\<open>running\<close> in memory, \<open>rd\<close>
  whether its stored record may be.
\<close>

definition worker_inv :: "state \<Rightarrow> addr \<Rightarrow> bool \<Rightarrow> bool \<Rightarrow> bool" where
  "worker_inv s a rm rd =
     (base_inv s
      \<and> (\<forall>t \<in> set (tasks s). \<not> worker_task t)
      \<and> processing s \<and> currentRun s = Some a
      \<and> (\<forall>b. running_at s b \<longrightarrow> rm \<and> b = a)
      \<and> (\<forall>k. stored_running s k \<longrightarrow>
            rd \<and> (\<exists>r. heap s a = Some r \<and> k = runs_file (id' (metadata r)))))"

text \<open>The state at the head of the loop: nothing is \<^verbatim>\<open>running\<close>, in memory or stored.\<close>

definition quiet :: "state \<Rightarrow> bool" where
  "quiet s =
     (base_inv s
      \<and> (\<forall>t \<in> set (tasks s). \<not> worker_task t)
      \<and> processing s
      \<and> (\<forall>b. \<not> running_at s b)
      \<and> (\<forall>k. \<not> stored_running s k))"

text \<open>
  What the segments assign to a metadata object: the three assignments of status and
  timestamps (lines 126, 111 and 197), or the settlement of lines 172 to 202.
\<close>

definition assigned :: "RunOptions \<Rightarrow> RunMetadata \<Rightarrow> RunMetadata \<Rightarrow> bool" where
  "assigned opts m m' =
     (m' = m
      \<or> (\<exists>t. m' = m\<lparr>status := Running, timestamps := (timestamps m)\<lparr>started := Some t\<rparr>\<rparr>)
      \<or> (\<exists>t. m' = m\<lparr>status := Failed, timestamps := (timestamps m)\<lparr>completed := Some t\<rparr>\<rparr>)
      \<or> (\<exists>startTime i. m' = settled_metadata opts startTime i m))"

text \<open>
  What a step may do to the run objects and to the files: an object that exists stays
  at its address, with its id and options, and its metadata is assigned at most once;
  an object that appears is the one \<^verbatim>\<open>createRun\<close> builds; a file that changes holds the
  metadata of an object as it was before the step.
\<close>

definition frame :: "state \<Rightarrow> state \<Rightarrow> bool" where
  "frame s s' =
     ((\<forall>a r. heap s a = Some r \<longrightarrow>
          (\<exists>r'. heap s' a = Some r' \<and> run_id r' = run_id r
                \<and> run_options r' = run_options r
                \<and> assigned (run_options r) (metadata r) (metadata r')))
      \<and> (\<forall>a r'. heap s a = None \<longrightarrow> heap s' a = Some r' \<longrightarrow>
            (\<exists>opts i. r' = \<lparr>run_id = randomUUID i, run_options = opts,
                             metadata = new_metadata opts i\<rparr>))
      \<and> (\<forall>f x. files s' f = Some x \<longrightarrow>
            files s f = Some x \<or> (\<exists>a r. heap s a = Some r \<and> x = Json (metadata r))))"

text \<open>
  The artifacts of a record agree with its options: a path of the trace log only with
  \<^verbatim>\<open>trace\<close>, a path of the profile only with \<^verbatim>\<open>profile\<close>, and both ways round once the
  status is \<^verbatim>\<open>completed\<close>.
\<close>

definition artifacts_agree :: "RunMetadata \<Rightarrow> bool" where
  "artifacts_agree m =
     ((stderr (artifacts m) \<noteq> None \<longrightarrow> trace (options m))
      \<and> (cpuProfile (artifacts m) \<noteq> None \<longrightarrow> profile (options m))
      \<and> (status m = Completed \<longrightarrow>
            (trace (options m) \<longrightarrow> stderr (artifacts m) \<noteq> None)
            \<and> (profile (options m) \<longrightarrow> cpuProfile (artifacts m) \<noteq> None)))"

definition artifacts_inv :: "state \<Rightarrow> bool" where
  "artifacts_inv s =
     ((\<forall>a r. heap s a = Some r \<longrightarrow>
          artifacts_agree (metadata r)
          \<and> trace (options (metadata r)) = trace (run_options r)
          \<and> profile (options (metadata r)) = profile (run_options r))
      \<and> (\<forall>k m. files s k = Some (Json m) \<longrightarrow> artifacts_agree m))"

text \<open>
  The life of a run: the queue holds each address once, and the objects at its
  addresses are \<^verbatim>\<open>queued\<close>; \<^verbatim>\<open>currentRun\<close> is an object outside the queue; and an object
  that is \<^verbatim>\<open>queued\<close> or \<^verbatim>\<open>running\<close> has the empty artifacts and no results yet.
\<close>

definition no_artifacts :: Artifacts where
  "no_artifacts = \<lparr>stdout = None, stderr = None, cpuProfile = None\<rparr>"

definition life_inv :: "state \<Rightarrow> bool" where
  "life_inv s =
     (distinct (queue s)
      \<and> (\<forall>a \<in> set (queue s). \<exists>r. heap s a = Some r \<and> status (metadata r) = Queued)
      \<and> (\<forall>a. currentRun s = Some a \<longrightarrow> a \<notin> set (queue s) \<and> heap s a \<noteq> None)
      \<and> (\<forall>a r. heap s a = Some r \<longrightarrow>
            status (metadata r) = Queued \<or> status (metadata r) = Running \<longrightarrow>
            artifacts (metadata r) = no_artifacts \<and> results (metadata r) = None))"

text \<open>While the worker waits between lines 126 and 167, its run is \<^verbatim>\<open>running\<close>.\<close>

definition phase_inv :: "state \<Rightarrow> bool" where
  "phase_inv s = (\<forall>t \<in> set (tasks s). running_phase t \<longrightarrow> running_at s (task_addr t))"

text \<open>The results and artifacts of the object at an address: what the settlement of
  lines 172 to 202 assigns, and nothing else after the creation.\<close>

definition outcome_at :: "state \<Rightarrow> addr \<Rightarrow> (Results option \<times> Artifacts) option" where
  "outcome_at s a =
     map_option (\<lambda>r. (results (metadata r), artifacts (metadata r))) (heap s a)"

text \<open>A record whose results hold an exit code other than 0, as every rejection of the
  child leaves it, has the empty artifacts.\<close>

definition failure_agree :: "RunMetadata \<Rightarrow> bool" where
  "failure_agree m =
     (\<forall>x. results m = Some x \<longrightarrow> exitCode x \<noteq> 0 \<longrightarrow> artifacts m = no_artifacts)"

definition failure_inv :: "state \<Rightarrow> bool" where
  "failure_inv s =
     ((\<forall>a r. heap s a = Some r \<longrightarrow> failure_agree (metadata r))
      \<and> (\<forall>f m. files s f = Some (Json m) \<longrightarrow> failure_agree m))"

section \<open>Sample values\<close>

definition sample_inputs :: inputs where
  "sample_inputs =
     \<lparr>randomUUID = ''run-1'', new_Date = 1000, Date_now = 1000,
      process_version = ''v20.11.0'', process_versions_v8 = ''11.3.244.8'',
      process_platform = ''linux'', process_arch = ''x64'',
      mkdir_ok = True, writeFile_ok = True, child = Resolved\<rparr>"

definition sample_body :: json where
  "sample_body =
     JObj [(''exp'', JStr ''01-hidden-classes''), (''variant'', JStr ''deopt''),
           (''trace'', JBool True)]"

definition sample_options :: RunOptions where
  "sample_options =
     \<lparr>trace = True, profile = False, warmup = 1000, repeat = 100000,
      exp' = ''01-hidden-classes'', variant = ''deopt''\<rparr>"

definition sample_queued :: RunMetadata where
  "sample_queued = new_metadata sample_options sample_inputs"

definition later_inputs :: inputs where
  "later_inputs = sample_inputs\<lparr>randomUUID := ''run-2'', new_Date := 2000, Date_now := 2000\<rparr>"

definition sample_completed :: RunMetadata where
  "sample_completed = settled_metadata sample_options 1000 later_inputs sample_queued"

text \<open>Three ways the child can fail: it is never spawned, it exits with code 1, and
  it is killed at the timeout.\<close>

definition spawn_error :: ExecaError where
  "spawn_error = \<lparr>exitCode' = None, message = ''spawn node ENOENT'', timedOut = False\<rparr>"

definition exit_1_error :: ExecaError where
  "exit_1_error =
     \<lparr>exitCode' = Some 1, message = ''Command failed with exit code 1: node'',
      timedOut = False\<rparr>"

definition timeout_error :: ExecaError where
  "timeout_error =
     \<lparr>exitCode' = None, message = ''Command timed out after 600000 milliseconds: node'',
      timedOut = True\<rparr>"

text \<open>A request is admitted and saved (two events), and the worker takes it (one
  more); then the run is saved as running and the child spawned, the child ends, and
  the final record is saved.\<close>

definition admitted :: "event list" where
  "admitted = [POST sample_body sample_inputs, Resume 0 sample_inputs]"

definition started :: "event list" where
  "started = admitted @ [Resume 0 sample_inputs]"

definition spawned :: "event list" where
  "spawned = started @ [Resume 0 sample_inputs, Resume 0 sample_inputs]"

definition finished :: "child_result \<Rightarrow> event list" where
  "finished c =
     spawned @ [Resume 0 (later_inputs\<lparr>child := c\<rparr>),
                Resume 0 later_inputs, Resume 0 later_inputs]"

definition sample_running :: RunMetadata where
  "sample_running =
     sample_queued\<lparr>status := Running,
                   timestamps := \<lparr>queued = 1000, started = Some 1000, completed = None\<rparr>\<rparr>"

definition finished_record :: "child_result \<Rightarrow> RunMetadata" where
  "finished_record c =
     settled_metadata sample_options 1000 (later_inputs\<lparr>child := c\<rparr>) sample_running"

text \<open>The same host after an upgrade of the runtime.\<close>

definition upgraded_inputs :: inputs where
  "upgraded_inputs = sample_inputs\<lparr>process_version := ''v22.0.0''\<rparr>"

text \<open>A script that is in no catalog.\<close>

definition unknown_body :: json where
  "unknown_body = JObj [(''exp'', JStr ''no-such-experiment''), (''variant'', JStr ''baseline'')]"

text \<open>A directory with two records, a file that does not parse and a file of another
  kind.\<close>

definition sample_later :: RunMetadata where
  "sample_later = new_metadata sample_options later_inputs"

definition sample_dir :: "string list" where
  "sample_dir = [''run-1.json'', ''broken.json'', ''run-2.json'', ''notes.txt'']"

definition sample_files :: "string \<rightharpoonup> stored" where
  "sample_files =
     [''run-1.json'' \<mapsto> Json sample_queued, ''broken.json'' \<mapsto> Unparsable,
      ''run-2.json'' \<mapsto> Json sample_later, ''notes.txt'' \<mapsto> Unparsable]"

section \<open>Validation\<close>

lemmas schema_defs = safeParse_def lookup_def exp_schema_def exp_regex_def word_char_def
  variant_schema_def trace_schema_def profile_schema_def warmup_schema_def
  repeat_schema_def with_default_def boolean_schema_def int_min_max_schema_def
  isInteger_def issues_at_def

lemmas segment_defs = post_runs_def createRun_def suspend_def emit_def reply_def
  writeFile_def update_metadata_def executeRun_def executeRun_spawn_def on_data_def
  executeRun_settle_def executeRun_complete_def loop_def processQueue_def
  processQueue_catch_def next_iteration_def remove_task_def

lemma sample_parse: "safeParse sample_body = Inr sample_options"
  by (simp add: sample_body_def sample_options_def schema_defs)

lemma warmup_out_of_range:
  "w < 0 \<or> 100000 < w \<Longrightarrow> \<exists>issues. warmup_schema (Some (JNum w)) = Inl issues"
  by (auto simp: warmup_schema_def with_default_def int_min_max_schema_def Let_def)

lemma repeat_out_of_range:
  "r < 1 \<or> 1000000 < r \<Longrightarrow> \<exists>issues. repeat_schema (Some (JNum r)) = Inl issues"
  by (auto simp: repeat_schema_def with_default_def int_min_max_schema_def Let_def)

lemma safeParse_Inr_iff:
  "safeParse (JObj kvs) = Inr opts \<longleftrightarrow>
     exp_schema (lookup kvs ''exp'') = Inr (exp' opts) \<and>
     variant_schema (lookup kvs ''variant'') = Inr (variant opts) \<and>
     trace_schema (lookup kvs ''trace'') = Inr (trace opts) \<and>
     profile_schema (lookup kvs ''profile'') = Inr (profile opts) \<and>
     warmup_schema (lookup kvs ''warmup'') = Inr (warmup opts) \<and>
     repeat_schema (lookup kvs ''repeat'') = Inr (repeat opts)"
  by (cases opts) (auto simp: safeParse_def Let_def split: sum.splits)

lemma safeParse_rejects:
  assumes "(\<exists>issues. warmup_schema (lookup kvs ''warmup'') = Inl issues)
           \<or> (\<exists>issues. repeat_schema (lookup kvs ''repeat'') = Inl issues)"
  shows "\<exists>issues. safeParse (JObj kvs) = Inl issues"
proof (cases "safeParse (JObj kvs)")
  case (Inl issues)
  then show ?thesis by blast
next
  case (Inr opts)
  with assms show ?thesis by (auto simp: safeParse_Inr_iff)
qed

lemma exp_accepted:
  assumes "x \<noteq> []" "length x \<le> 100"
    "\<forall>c \<in> set x. c \<in> set ''ABCDEFGHIJKLMNOPQRSTUVWXYZabcdefghijklmnopqrstuvwxyz0123456789_-''"
  shows "exp_schema (Some (JStr x)) = Inr x"
proof -
  have "word_char c \<or> c = CHR ''-''"
    if "c \<in> set ''ABCDEFGHIJKLMNOPQRSTUVWXYZabcdefghijklmnopqrstuvwxyz0123456789_-''" for c
    using that by (auto simp: word_char_def)
  with assms(3) have "list_all (\<lambda>c. word_char c \<or> c = CHR ''-'') x"
    by (simp add: list_all_iff)
  with assms(1,2) show ?thesis
    by (simp add: exp_schema_def exp_regex_def)
qed

lemma variant_accepted:
  "v = ''baseline'' \<or> v = ''deopt'' \<or> v = ''fixed'' \<Longrightarrow> variant_schema (Some (JStr v)) = Inr v"
  by (auto simp: variant_schema_def)

lemma boolean_accepted:
  "l = None \<or> l = Some (JBool t) \<Longrightarrow>
   trace_schema l = Inr (case l of None \<Rightarrow> False | Some _ \<Rightarrow> t)
   \<and> profile_schema l = Inr (case l of None \<Rightarrow> False | Some _ \<Rightarrow> t)"
  by (auto simp: trace_schema_def profile_schema_def with_default_def boolean_schema_def)

lemma warmup_in_range:
  "0 \<le> n \<Longrightarrow> n \<le> 100000 \<Longrightarrow> warmup_schema (Some (JNum (of_int n))) = Inr (of_int n)"
  by (simp add: warmup_schema_def with_default_def int_min_max_schema_def isInteger_def)

lemma repeat_in_range:
  "1 \<le> n \<Longrightarrow> n \<le> 1000000 \<Longrightarrow> repeat_schema (Some (JNum (of_int n))) = Inr (of_int n)"
  by (simp add: repeat_schema_def with_default_def int_min_max_schema_def isInteger_def)

lemma in_bounds_accepted:
  assumes "lookup kvs ''exp'' = Some (JStr x)" "x \<noteq> []" "length x \<le> 100"
    "\<forall>c \<in> set x. c \<in> set ''ABCDEFGHIJKLMNOPQRSTUVWXYZabcdefghijklmnopqrstuvwxyz0123456789_-''"
    "lookup kvs ''variant'' = Some (JStr v)" "v = ''baseline'' \<or> v = ''deopt'' \<or> v = ''fixed''"
    "lookup kvs ''trace'' = None \<or> lookup kvs ''trace'' = Some (JBool t)"
    "lookup kvs ''profile'' = None \<or> lookup kvs ''profile'' = Some (JBool p)"
    "lookup kvs ''warmup'' = Some (JNum (of_int wn))" "0 \<le> wn" "wn \<le> 100000"
    "lookup kvs ''repeat'' = Some (JNum (of_int rn))" "1 \<le> rn" "rn \<le> 1000000"
  shows "safeParse (JObj kvs)
           = Inr \<lparr>trace = (case lookup kvs ''trace'' of None \<Rightarrow> False | Some _ \<Rightarrow> t),
                  profile = (case lookup kvs ''profile'' of None \<Rightarrow> False | Some _ \<Rightarrow> p),
                  warmup = of_int wn, repeat = of_int rn, exp' = x, variant = v\<rparr>"
  unfolding safeParse_Inr_iff
  using exp_accepted [OF assms(2,3,4)] variant_accepted [OF assms(6)]
    boolean_accepted [OF assms(7)] boolean_accepted [OF assms(8)]
    warmup_in_range [OF assms(10,11)] repeat_in_range [OF assms(13,14)]
    assms(1,5,9,12)
  by simp

text \<open>
  C4. A body whose \<^verbatim>\<open>warmup\<close> is a number outside [0, 100000], or whose \<^verbatim>\<open>repeat\<close> is
  a number outside [1, 1000000], is answered in the segment of the request itself with
  status 400 and the issues of the validation; that reply is the only change of the
  state: nothing is queued, no run object is created, no file is written and nothing
  is left suspended. Conversely an integer within the bounds passes the validation of
  its field, and a body with a well-formed \<^verbatim>\<open>exp\<close>, one of the three variants, booleans
  (or nothing) for \<^verbatim>\<open>trace\<close> and \<^verbatim>\<open>profile\<close>, and integers within the bounds for
  \<^verbatim>\<open>warmup\<close> and \<^verbatim>\<open>repeat\<close> passes \<^verbatim>\<open>safeParse\<close> with these values and is admitted:
  \<^verbatim>\<open>createRun\<close> runs, the run is queued, and no reply goes out in that segment.
\<close>

theorem out_of_range_rejected:
  "((lookup kvs ''warmup'' = Some (JNum w) \<and> (w < 0 \<or> 100000 < w))
     \<or> (lookup kvs ''repeat'' = Some (JNum r) \<and> (r < 1 \<or> 1000000 < r))
    \<longrightarrow> (\<exists>issues. safeParse (JObj kvs) = Inl issues
                  \<and> step s (POST (JObj kvs) i) = reply (BadRequest issues) s)
        \<and> queue (step s (POST (JObj kvs) i)) = queue s
        \<and> heap (step s (POST (JObj kvs) i)) = heap s
        \<and> files (step s (POST (JObj kvs) i)) = files s
        \<and> tasks (step s (POST (JObj kvs) i)) = tasks s)
   \<and> (isInteger w' \<and> 0 \<le> w' \<and> w' \<le> 100000 \<longrightarrow> warmup_schema (Some (JNum w')) = Inr w')
   \<and> (isInteger r' \<and> 1 \<le> r' \<and> r' \<le> 1000000 \<longrightarrow> repeat_schema (Some (JNum r')) = Inr r')
   \<and> (lookup body ''exp'' = Some (JStr x) \<and> x \<noteq> [] \<and> length x \<le> 100
       \<and> (\<forall>c \<in> set x.
             c \<in> set ''ABCDEFGHIJKLMNOPQRSTUVWXYZabcdefghijklmnopqrstuvwxyz0123456789_-'')
       \<and> lookup body ''variant'' = Some (JStr v)
       \<and> (v = ''baseline'' \<or> v = ''deopt'' \<or> v = ''fixed'')
       \<and> (lookup body ''trace'' = None \<or> lookup body ''trace'' = Some (JBool t))
       \<and> (lookup body ''profile'' = None \<or> lookup body ''profile'' = Some (JBool p))
       \<and> lookup body ''warmup'' = Some (JNum (of_int wn)) \<and> 0 \<le> wn \<and> wn \<le> 100000
       \<and> lookup body ''repeat'' = Some (JNum (of_int rn)) \<and> 1 \<le> rn \<and> rn \<le> 1000000
      \<longrightarrow> (\<exists>opts. safeParse (JObj body) = Inr opts
                 \<and> exp' opts = x \<and> variant opts = v
                 \<and> warmup opts = of_int wn \<and> repeat opts = of_int rn
                 \<and> step s (POST (JObj body) i) = createRun opts i s)
          \<and> queue (step s (POST (JObj body) i)) = queue s @ [next_addr s]
          \<and> heap (step s (POST (JObj body) i)) (next_addr s) \<noteq> None
          \<and> responses (step s (POST (JObj body) i)) = responses s)"
proof (intro conjI impI)
  assume out: "(lookup kvs ''warmup'' = Some (JNum w) \<and> (w < 0 \<or> 100000 < w))
     \<or> (lookup kvs ''repeat'' = Some (JNum r) \<and> (r < 1 \<or> 1000000 < r))"
  have "(\<exists>issues. warmup_schema (lookup kvs ''warmup'') = Inl issues)
        \<or> (\<exists>issues. repeat_schema (lookup kvs ''repeat'') = Inl issues)"
    using out warmup_out_of_range [of w] repeat_out_of_range [of r] by auto
  then obtain issues where rejected: "safeParse (JObj kvs) = Inl issues"
    using safeParse_rejects by blast
  then have post: "step s (POST (JObj kvs) i) = reply (BadRequest issues) s"
    by (simp add: post_runs_def)
  from rejected post
  show "\<exists>issues. safeParse (JObj kvs) = Inl issues
                  \<and> step s (POST (JObj kvs) i) = reply (BadRequest issues) s"
    by blast
  from post show "queue (step s (POST (JObj kvs) i)) = queue s" by (simp add: reply_def)
  from post show "heap (step s (POST (JObj kvs) i)) = heap s" by (simp add: reply_def)
  from post show "files (step s (POST (JObj kvs) i)) = files s" by (simp add: reply_def)
  from post show "tasks (step s (POST (JObj kvs) i)) = tasks s" by (simp add: reply_def)
next
  assume "isInteger w' \<and> 0 \<le> w' \<and> w' \<le> 100000"
  then show "warmup_schema (Some (JNum w')) = Inr w'"
    by (simp add: warmup_schema_def with_default_def int_min_max_schema_def)
next
  assume "isInteger r' \<and> 1 \<le> r' \<and> r' \<le> 1000000"
  then show "repeat_schema (Some (JNum r')) = Inr r'"
    by (simp add: repeat_schema_def with_default_def int_min_max_schema_def)
next
  assume ok: "lookup body ''exp'' = Some (JStr x) \<and> x \<noteq> [] \<and> length x \<le> 100
       \<and> (\<forall>c \<in> set x.
             c \<in> set ''ABCDEFGHIJKLMNOPQRSTUVWXYZabcdefghijklmnopqrstuvwxyz0123456789_-'')
       \<and> lookup body ''variant'' = Some (JStr v)
       \<and> (v = ''baseline'' \<or> v = ''deopt'' \<or> v = ''fixed'')
       \<and> (lookup body ''trace'' = None \<or> lookup body ''trace'' = Some (JBool t))
       \<and> (lookup body ''profile'' = None \<or> lookup body ''profile'' = Some (JBool p))
       \<and> lookup body ''warmup'' = Some (JNum (of_int wn)) \<and> 0 \<le> wn \<and> wn \<le> 100000
       \<and> lookup body ''repeat'' = Some (JNum (of_int rn)) \<and> 1 \<le> rn \<and> rn \<le> 1000000"
  define opts where "opts =
     \<lparr>trace = (case lookup body ''trace'' of None \<Rightarrow> False | Some _ \<Rightarrow> t),
      profile = (case lookup body ''profile'' of None \<Rightarrow> False | Some _ \<Rightarrow> p),
      warmup = of_int wn, repeat = of_int rn, exp' = x, variant = v\<rparr>"
  have parsed: "safeParse (JObj body) = Inr opts"
    unfolding opts_def using ok by (intro in_bounds_accepted) blast+
  define s1 where "s1 = step s (POST (JObj body) i)"
  have post: "s1 = createRun opts i s"
    using parsed by (simp add: s1_def post_runs_def)
  show "\<exists>opts. safeParse (JObj body) = Inr opts
                 \<and> exp' opts = x \<and> variant opts = v
                 \<and> warmup opts = of_int wn \<and> repeat opts = of_int rn
                 \<and> step s (POST (JObj body) i) = createRun opts i s"
    using parsed post unfolding s1_def by (intro exI [of _ opts]) (simp add: opts_def)
  show "queue (step s (POST (JObj body) i)) = queue s @ [next_addr s]"
    unfolding s1_def [symmetric] by (simp add: post createRun_def suspend_def Let_def)
  show "heap (step s (POST (JObj body) i)) (next_addr s) \<noteq> None"
    unfolding s1_def [symmetric] by (simp add: post createRun_def suspend_def Let_def)
  show "responses (step s (POST (JObj body) i)) = responses s"
    unfolding s1_def [symmetric] by (simp add: post createRun_def suspend_def Let_def)
qed

theorem out_of_range_rejected_witness:
  "step init (POST (JObj [(''exp'', JStr ''A''), (''variant'', JStr ''baseline''),
                          (''warmup'', JNum 10), (''repeat'', JNum 2000000)])
                   sample_inputs)
     = reply (BadRequest [([''repeat''], too_big)]) init
   \<and> queue (reply (BadRequest [([''repeat''], too_big)]) init) = []
   \<and> warmup_schema (Some (JNum 10)) = Inr 10
   \<and> repeat_schema (Some (JNum 1000000)) = Inr 1000000
   \<and> safeParse (JObj [(''exp'', JStr ''A''), (''variant'', JStr ''baseline''),
                       (''warmup'', JNum 10), (''repeat'', JNum 1000000)])
       = Inr \<lparr>trace = False, profile = False, warmup = 10, repeat = 1000000,
              exp' = ''A'', variant = ''baseline''\<rparr>
   \<and> queue (step init (POST (JObj [(''exp'', JStr ''A''), (''variant'', JStr ''baseline''),
                                    (''warmup'', JNum 10), (''repeat'', JNum 1000000)])
                            sample_inputs)) = [0]
   \<and> responses (step init (POST (JObj [(''exp'', JStr ''A''), (''variant'', JStr ''baseline''),
                                    (''warmup'', JNum 10), (''repeat'', JNum 1000000)])
                            sample_inputs)) = []"
proof -
  have p: "safeParse (JObj [(''exp'', JStr ''A''), (''variant'', JStr ''baseline''),
                       (''warmup'', JNum 10), (''repeat'', JNum 1000000)])
       = Inr \<lparr>trace = False, profile = False, warmup = 10, repeat = 1000000,
              exp' = ''A'', variant = ''baseline''\<rparr>"
    by (simp add: schema_defs)
  show ?thesis
    using out_of_range_rejected
      [of "[(''exp'', JStr ''A''), (''variant'', JStr ''baseline''),
            (''warmup'', JNum 10), (''repeat'', JNum 2000000)]"
        10 2000000 init sample_inputs 10 1000000
        "[(''exp'', JStr ''A''), (''variant'', JStr ''baseline''),
            (''warmup'', JNum 10), (''repeat'', JNum 1000000)]"
        "''A''" "''baseline''" False False 10 1000000]
    by (simp add: schema_defs reply_def init_def post_runs_def createRun_def suspend_def)
qed

text \<open>
  C10. Where a body that passes validation omits \<^verbatim>\<open>trace\<close>, \<^verbatim>\<open>profile\<close>, \<^verbatim>\<open>warmup\<close> or
  \<^verbatim>\<open>repeat\<close>, the validated options hold \<open>False\<close>, \<open>False\<close>, 1000 and 100000 there; the
  request is admitted with these options: the new run is queued with them, its
  metadata records them, and so does the file that the first \<^verbatim>\<open>saveMetadata\<close> writes.
\<close>

theorem defaults_filled:
  assumes "safeParse (JObj kvs) = Inr opts"
  shows "(lookup kvs ''trace'' = None \<longrightarrow> trace opts = False)
       \<and> (lookup kvs ''profile'' = None \<longrightarrow> profile opts = False)
       \<and> (lookup kvs ''warmup'' = None \<longrightarrow> warmup opts = 1000)
       \<and> (lookup kvs ''repeat'' = None \<longrightarrow> repeat opts = 100000)
       \<and> queue (step s (POST (JObj kvs) i)) = queue s @ [next_addr s]
       \<and> (\<exists>r. heap (step s (POST (JObj kvs) i)) (next_addr s) = Some r
              \<and> run_options r = opts
              \<and> status (metadata r) = Queued
              \<and> options (metadata r)
                  = \<lparr>trace = trace opts, profile = profile opts,
                     warmup = warmup opts, repeat = repeat opts\<rparr>)
       \<and> (mkdir_ok j \<and> writeFile_ok j \<longrightarrow>
            (\<exists>m. files (step (step s (POST (JObj kvs) i)) (Resume (length (tasks s)) j))
                    (runs_file (randomUUID i)) = Some (Json m)
                \<and> options m
                    = \<lparr>trace = trace opts, profile = profile opts,
                       warmup = warmup opts, repeat = repeat opts\<rparr>))"
proof -
  from assms have fields:
    "trace_schema (lookup kvs ''trace'') = Inr (trace opts)"
    "profile_schema (lookup kvs ''profile'') = Inr (profile opts)"
    "warmup_schema (lookup kvs ''warmup'') = Inr (warmup opts)"
    "repeat_schema (lookup kvs ''repeat'') = Inr (repeat opts)"
    by (simp_all add: safeParse_Inr_iff)
  have t: "lookup kvs ''trace'' = None \<longrightarrow> trace opts = False"
    using fields(1) by (auto simp: trace_schema_def with_default_def boolean_schema_def)
  have p: "lookup kvs ''profile'' = None \<longrightarrow> profile opts = False"
    using fields(2) by (auto simp: profile_schema_def with_default_def boolean_schema_def)
  have w: "lookup kvs ''warmup'' = None \<longrightarrow> warmup opts = 1000"
    using fields(3)
    by (auto simp: warmup_schema_def with_default_def int_min_max_schema_def isInteger_def)
  have r: "lookup kvs ''repeat'' = None \<longrightarrow> repeat opts = 100000"
    using fields(4)
    by (auto simp: repeat_schema_def with_default_def int_min_max_schema_def isInteger_def)
  define s1 where "s1 = step s (POST (JObj kvs) i)"
  have post: "s1 = createRun opts i s"
    using assms by (simp add: s1_def post_runs_def)
  have q: "queue s1 = queue s @ [next_addr s]"
    by (simp add: post createRun_def suspend_def Let_def)
  have h: "heap s1 (next_addr s)
             = Some \<lparr>run_id = randomUUID i, run_options = opts,
                     metadata = new_metadata opts i\<rparr>"
    by (simp add: post createRun_def suspend_def Let_def)
  have ts: "tasks s1 = tasks s @ [AwaitMkdir SaveInitial (next_addr s)]"
    by (simp add: post createRun_def suspend_def Let_def)
  have saved: "files (step s1 (Resume (length (tasks s)) j)) (runs_file (randomUUID i))
                 = Some (Json (new_metadata opts i))"
    if "mkdir_ok j \<and> writeFile_ok j"
    using that h
    by (simp add: ts remove_task_def suspend_def writeFile_def new_metadata_def)
  from t p w r q h saved show ?thesis
    unfolding s1_def [symmetric] by (simp add: new_metadata_def)
qed

theorem defaults_filled_witness:
  "safeParse (JObj [(''exp'', JStr ''A''), (''variant'', JStr ''fixed'')])
     = Inr \<lparr>trace = False, profile = False, warmup = 1000, repeat = 100000,
            exp' = ''A'', variant = ''fixed''\<rparr>
   \<and> queue (step init (POST (JObj [(''exp'', JStr ''A''), (''variant'', JStr ''fixed'')])
                          sample_inputs)) = [0]
   \<and> (\<exists>m. files (step (step init (POST (JObj [(''exp'', JStr ''A''),
                                               (''variant'', JStr ''fixed'')]) sample_inputs))
                      (Resume 0 sample_inputs)) ''run-1.json'' = Some (Json m)
          \<and> options m = \<lparr>trace = False, profile = False, warmup = 1000, repeat = 100000\<rparr>)"
proof -
  have parsed: "safeParse (JObj [(''exp'', JStr ''A''), (''variant'', JStr ''fixed'')])
     = Inr \<lparr>trace = False, profile = False, warmup = 1000, repeat = 100000,
            exp' = ''A'', variant = ''fixed''\<rparr>"
    by (simp add: schema_defs)
  show ?thesis
    using defaults_filled [OF parsed, of init sample_inputs sample_inputs]
    by (simp add: parsed init_def sample_inputs_def runs_file_def)
qed

section \<open>The live stream of a terminal run\<close>

text \<open>
  C2, as the code has it. For a run whose stored record is terminal when the stream is
  requested, the handler writes two events, first \<^verbatim>\<open>status\<close> with the status of the
  record and then \<^verbatim>\<open>complete\<close> with the record, writes no \<^verbatim>\<open>stdout\<close> or \<^verbatim>\<open>stderr\<close>
  event, and ends the stream without registering a listener.
\<close>

theorem terminal_stream:
  assumes "getRun fs i = Some r" and "status r = Completed \<or> status r = Failed"
  shows "get_stream fs i = Ended [status_event (status r), complete_event r]"
  using assms by (auto simp: get_stream_def)

lemma sample_completed_status: "status sample_completed = Completed"
  by (simp add: sample_completed_def settled_metadata_def later_inputs_def sample_inputs_def)

theorem terminal_stream_witness:
  "getRun [''run-1.json'' \<mapsto> Json sample_completed] ''run-1'' = Some sample_completed
   \<and> status sample_completed = Completed
   \<and> get_stream [''run-1.json'' \<mapsto> Json sample_completed] ''run-1''
       = Ended [status_event Completed, complete_event sample_completed]"
proof -
  have g: "getRun [''run-1.json'' \<mapsto> Json sample_completed] ''run-1'' = Some sample_completed"
    by (simp add: getRun_def runs_file_def)
  show ?thesis
    using terminal_stream [OF g] g sample_completed_status by simp
qed

text \<open>The claim as the specification states it (exactly one event, \<^verbatim>\<open>complete\<close>) fails
  on a completed run: the stream holds two events, and the first is \<^verbatim>\<open>status\<close>.\<close>

theorem terminal_stream_counterexample:
  "get_stream [''run-1.json'' \<mapsto> Json sample_completed] ''run-1''
     \<noteq> Ended [complete_event sample_completed]
   \<and> (\<exists>written. get_stream [''run-1.json'' \<mapsto> Json sample_completed] ''run-1'' = Ended written
         \<and> length written = 2 \<and> hd written = status_event Completed)"
  by (simp add: get_stream_def getRun_def runs_file_def sample_completed_status)

section \<open>One run at a time\<close>

subsection \<open>Primitive state transformers\<close>

lemma suspend_simps [simp]:
  "tasks (suspend t s) = tasks s @ [t]" "heap (suspend t s) = heap s"
  "files (suspend t s) = files s" "queue (suspend t s) = queue s"
  "currentRun (suspend t s) = currentRun s" "processing (suspend t s) = processing s"
  "next_addr (suspend t s) = next_addr s" "emitted_log (suspend t s) = emitted_log s"
  "responses (suspend t s) = responses s"
  by (simp_all add: suspend_def)

lemma emit_simps [simp]:
  "tasks (emit e s) = tasks s" "heap (emit e s) = heap s"
  "files (emit e s) = files s" "queue (emit e s) = queue s"
  "currentRun (emit e s) = currentRun s" "processing (emit e s) = processing s"
  "next_addr (emit e s) = next_addr s" "emitted_log (emit e s) = emitted_log s @ [e]"
  "responses (emit e s) = responses s"
  by (simp_all add: emit_def)

lemma reply_simps [simp]:
  "tasks (reply e s) = tasks s" "heap (reply e s) = heap s"
  "files (reply e s) = files s" "queue (reply e s) = queue s"
  "currentRun (reply e s) = currentRun s" "processing (reply e s) = processing s"
  "next_addr (reply e s) = next_addr s" "emitted_log (reply e s) = emitted_log s"
  "responses (reply e s) = responses s @ [e]"
  by (simp_all add: reply_def)

lemma writeFile_simps [simp]:
  "tasks (writeFile m s) = tasks s" "heap (writeFile m s) = heap s"
  "files (writeFile m s) = (files s)(runs_file (id' m) \<mapsto> Json m)" "queue (writeFile m s) = queue s"
  "currentRun (writeFile m s) = currentRun s" "processing (writeFile m s) = processing s"
  "next_addr (writeFile m s) = next_addr s" "emitted_log (writeFile m s) = emitted_log s"
  "responses (writeFile m s) = responses s"
  by (simp_all add: writeFile_def)

lemma remove_task_simps [simp]:
  "tasks (remove_task k s) = take k (tasks s) @ drop (Suc k) (tasks s)" "heap (remove_task k s) = heap s"
  "files (remove_task k s) = files s" "queue (remove_task k s) = queue s"
  "currentRun (remove_task k s) = currentRun s" "processing (remove_task k s) = processing s"
  "next_addr (remove_task k s) = next_addr s" "emitted_log (remove_task k s) = emitted_log s"
  "responses (remove_task k s) = responses s"
  by (simp_all add: remove_task_def)

lemma update_metadata_simps [simp]:
  "tasks (update_metadata a f s) = tasks s"
  "heap (update_metadata a f s) = (case heap s a of None \<Rightarrow> heap s | Some r \<Rightarrow> (heap s)(a \<mapsto> r\<lparr>metadata := f (metadata r)\<rparr>))"
  "files (update_metadata a f s) = files s" "queue (update_metadata a f s) = queue s"
  "currentRun (update_metadata a f s) = currentRun s" "processing (update_metadata a f s) = processing s"
  "next_addr (update_metadata a f s) = next_addr s" "emitted_log (update_metadata a f s) = emitted_log s"
  "responses (update_metadata a f s) = responses s"
  by (simp_all add: update_metadata_def split: option.splits)

lemma running_at_simps [simp]:
  "running_at (suspend t s) = running_at s" "running_at (emit e s) = running_at s"
  "running_at (reply r s) = running_at s" "running_at (writeFile m s) = running_at s"
  "running_at (remove_task k s) = running_at s"
  "running_at (s\<lparr>processing := p\<rparr>) = running_at s"
  "running_at (s\<lparr>currentRun := c\<rparr>) = running_at s"
  "running_at (s\<lparr>queue := q\<rparr>) = running_at s"
  by (simp_all add: running_at_def fun_eq_iff)

lemma stored_running_simps [simp]:
  "stored_running (suspend t s) = stored_running s" "stored_running (emit e s) = stored_running s"
  "stored_running (reply r s) = stored_running s"
  "stored_running (update_metadata a f s) = stored_running s"
  "stored_running (remove_task k s) = stored_running s"
  "stored_running (s\<lparr>processing := p\<rparr>) = stored_running s"
  "stored_running (s\<lparr>currentRun := c\<rparr>) = stored_running s"
  "stored_running (s\<lparr>queue := q\<rparr>) = stored_running s"
  by (simp_all add: stored_running_def fun_eq_iff)

lemma base_inv_simps [simp]:
  "base_inv (suspend t s) = base_inv s" "base_inv (emit e s) = base_inv s"
  "base_inv (reply r s) = base_inv s" "base_inv (writeFile m s) = base_inv s"
  "base_inv (remove_task k s) = base_inv s"
  "base_inv (s\<lparr>processing := p\<rparr>) = base_inv s"
  "base_inv (s\<lparr>currentRun := c\<rparr>) = base_inv s"
  by (simp_all add: base_inv_def)

lemma invI:
  assumes "base_inv s"
    and "length (filter worker_task (tasks s)) \<le> 1"
    and "\<And>t. t \<in> set (tasks s) \<Longrightarrow> worker_task t \<Longrightarrow>
            processing s \<and> currentRun s = Some (task_addr t)"
    and "\<And>a. running_at s a \<Longrightarrow> \<exists>t \<in> set (tasks s). running_phase t \<and> task_addr t = a"
    and "\<And>k. stored_running s k \<Longrightarrow>
            processing s
            \<and> (\<exists>a r. currentRun s = Some a \<and> heap s a = Some r
                     \<and> k = runs_file (id' (metadata r)))
            \<and> (\<forall>t \<in> set (tasks s). \<not> saved_terminal t)"
  shows "inv s"
  using assms unfolding inv_def by blast

lemma inv_base: "inv s \<Longrightarrow> base_inv s"
  by (simp add: inv_def)

lemma inv_single: "inv s \<Longrightarrow> length (filter worker_task (tasks s)) \<le> 1"
  by (simp add: inv_def)

lemma inv_owner:
  "inv s \<Longrightarrow> t \<in> set (tasks s) \<Longrightarrow> worker_task t \<Longrightarrow>
   processing s \<and> currentRun s = Some (task_addr t)"
  unfolding inv_def by blast

lemma inv_running:
  "inv s \<Longrightarrow> running_at s a \<Longrightarrow> \<exists>t \<in> set (tasks s). running_phase t \<and> task_addr t = a"
  unfolding inv_def by blast

lemma inv_stored:
  "inv s \<Longrightarrow> stored_running s k \<Longrightarrow>
   processing s
   \<and> (\<exists>a r. currentRun s = Some a \<and> heap s a = Some r \<and> k = runs_file (id' (metadata r)))
   \<and> (\<forall>t \<in> set (tasks s). \<not> saved_terminal t)"
  unfolding inv_def by blast

lemma inv_emit [simp]: "inv (emit e s) = inv s" by (simp add: inv_def)
lemma inv_reply [simp]: "inv (reply e s) = inv s" by (simp add: inv_def)
lemma worker_inv_emit [simp]: "worker_inv (emit e s) a rm rd = worker_inv s a rm rd"
  by (simp add: worker_inv_def)
lemma quiet_emit [simp]: "quiet (emit e s) = quiet s" by (simp add: quiet_def)

subsection \<open>tasks\<close>

lemma filter_remove_worker:
  assumes "k < length ts" "worker_task (ts ! k)" "length (filter worker_task ts) \<le> 1"
  shows "\<forall>t \<in> set (take k ts @ drop (Suc k) ts). \<not> worker_task t"
proof -
  have "ts = take k ts @ ts ! k # drop (Suc k) ts"
    using assms(1) by (rule id_take_nth_drop)
  then have "filter worker_task ts
               = filter worker_task (take k ts) @ ts ! k # filter worker_task (drop (Suc k) ts)"
    using assms(2) by (metis filter.simps(2) filter_append)
  with assms(3)
  have "filter worker_task (take k ts) = [] \<and> filter worker_task (drop (Suc k) ts) = []"
    by simp
  then show ?thesis by (auto simp: filter_empty_conv)
qed

lemma filter_remove_other:
  assumes "k < length ts" "\<not> worker_task (ts ! k)"
  shows "filter worker_task (take k ts @ drop (Suc k) ts) = filter worker_task ts"
proof -
  have "ts = take k ts @ ts ! k # drop (Suc k) ts"
    using assms(1) by (rule id_take_nth_drop)
  then have "filter worker_task ts = filter worker_task (take k ts @ ts ! k # drop (Suc k) ts)"
    by simp
  also have "\<dots> = filter worker_task (take k ts @ drop (Suc k) ts)" using assms(2) by simp
  finally show ?thesis by simp
qed

lemma set_remove_subset: "set (take k ts @ drop (Suc k) ts) \<subseteq> set ts"
  by (auto dest: in_set_takeD in_set_dropD)

lemma running_phase_worker: "running_phase t \<Longrightarrow> worker_task t"
  by (cases t) auto

lemma saved_terminal_worker: "saved_terminal t \<Longrightarrow> worker_task t"
  by (cases t) auto

lemma saved_terminal_not_running: "saved_terminal t \<Longrightarrow> \<not> running_phase t"
  by (cases t) auto

lemma single_worker:
  assumes "length (filter worker_task ts) \<le> 1" "t \<in> set ts" "t' \<in> set ts"
    "worker_task t" "worker_task t'"
  shows "t = t'"
proof -
  have "t \<in> set (filter worker_task ts)" "t' \<in> set (filter worker_task ts)"
    using assms by auto
  moreover obtain x where "filter worker_task ts = [x]"
    using assms(1) \<open>t \<in> set (filter worker_task ts)\<close> by (cases "filter worker_task ts") auto
  ultimately show ?thesis by simp
qed

subsection \<open>Removing a task\<close>

lemma set_remove_other:
  assumes "k < length ts" "t \<in> set ts" "t \<noteq> ts ! k"
  shows "t \<in> set (take k ts @ drop (Suc k) ts)"
proof -
  have "ts = take k ts @ ts ! k # drop (Suc k) ts"
    using assms(1) by (rule id_take_nth_drop)
  then have "set ts = insert (ts ! k) (set (take k ts @ drop (Suc k) ts))"
    by (metis Un_insert_right list.simps(15) set_append)
  with assms show ?thesis by auto
qed

lemma inv_remove_other:
  assumes "inv s" "k < length (tasks s)" "\<not> worker_task (tasks s ! k)"
  shows "inv (remove_task k s)"
proof (rule invI)
  let ?ts = "take k (tasks s) @ drop (Suc k) (tasks s)"
  have sub: "set ?ts \<subseteq> set (tasks s)" by (rule set_remove_subset)
  show "base_inv (remove_task k s)" using assms(1) by (simp add: inv_base)
  show "length (filter worker_task (tasks (remove_task k s))) \<le> 1"
    using inv_single [OF assms(1)] filter_remove_other [OF assms(2,3)] by simp
  show "processing (remove_task k s) \<and> currentRun (remove_task k s) = Some (task_addr t)"
    if "t \<in> set (tasks (remove_task k s))" "worker_task t" for t
    using that sub inv_owner [OF assms(1), of t] by auto
  show "\<exists>t \<in> set (tasks (remove_task k s)). running_phase t \<and> task_addr t = a"
    if "running_at (remove_task k s) a" for a
  proof -
    from that obtain t where t: "t \<in> set (tasks s)" "running_phase t" "task_addr t = a"
      using inv_running [OF assms(1), of a] by auto
    then have "t \<noteq> tasks s ! k" using assms(3) running_phase_worker by auto
    with t assms(2) have "t \<in> set ?ts" by (intro set_remove_other)
    with t show ?thesis by auto
  qed
  show "processing (remove_task k s)
        \<and> (\<exists>a r. currentRun (remove_task k s) = Some a \<and> heap (remove_task k s) a = Some r
                 \<and> f = runs_file (id' (metadata r)))
        \<and> (\<forall>t \<in> set (tasks (remove_task k s)). \<not> saved_terminal t)"
    if "stored_running (remove_task k s) f" for f
    using that sub inv_stored [OF assms(1), of f] by auto
qed

lemma worker_inv_remove:
  assumes "inv s" "k < length (tasks s)" "worker_task (tasks s ! k)"
  shows "worker_inv (remove_task k s) (task_addr (tasks s ! k))
           (running_phase (tasks s ! k)) (\<not> saved_terminal (tasks s ! k))"
proof -
  let ?t = "tasks s ! k"
  have here: "?t \<in> set (tasks s)" using assms(2) by simp
  have none: "\<forall>t \<in> set (tasks (remove_task k s)). \<not> worker_task t"
    using filter_remove_worker [OF assms(2,3) inv_single [OF assms(1)]] by simp
  have own: "processing s \<and> currentRun s = Some (task_addr ?t)"
    using inv_owner [OF assms(1) here assms(3)] .
  have mem: "running_phase ?t \<and> b = task_addr ?t" if "running_at s b" for b
  proof -
    from that obtain t where t: "t \<in> set (tasks s)" "running_phase t" "task_addr t = b"
      using inv_running [OF assms(1), of b] by auto
    then have "t = ?t"
      using single_worker [OF inv_single [OF assms(1)] t(1) here] assms(3) running_phase_worker
      by blast
    with t show ?thesis by simp
  qed
  have disk: "\<not> saved_terminal ?t
              \<and> (\<exists>r. heap s (task_addr ?t) = Some r \<and> f = runs_file (id' (metadata r)))"
    if "stored_running s f" for f
    using inv_stored [OF assms(1) that] own here by auto
  show ?thesis
    unfolding worker_inv_def
    using none own mem disk inv_base [OF assms(1)] by simp
qed


subsection \<open>Continuations\<close>

lemma stored_running_writeFile:
  "stored_running (writeFile m s) f
     = (if f = runs_file (id' m) then status m = Running else stored_running s f)"
  by (simp add: stored_running_def)

lemma inv_suspend_other:
  assumes "inv s" "\<not> worker_task t"
  shows "inv (suspend t s)"
proof (rule invI)
  show "base_inv (suspend t s)" using assms(1) by (simp add: inv_base)
  show "length (filter worker_task (tasks (suspend t s))) \<le> 1"
    using inv_single [OF assms(1)] assms(2) by simp
  show "processing (suspend t s) \<and> currentRun (suspend t s) = Some (task_addr u)"
    if "u \<in> set (tasks (suspend t s))" "worker_task u" for u
    using that assms(2) inv_owner [OF assms(1), of u] by auto
  show "\<exists>u \<in> set (tasks (suspend t s)). running_phase u \<and> task_addr u = a"
    if "running_at (suspend t s) a" for a
    using that inv_running [OF assms(1), of a] by auto
  show "processing (suspend t s)
        \<and> (\<exists>a r. currentRun (suspend t s) = Some a \<and> heap (suspend t s) a = Some r
                 \<and> f = runs_file (id' (metadata r)))
        \<and> (\<forall>u \<in> set (tasks (suspend t s)). \<not> saved_terminal u)"
    if "stored_running (suspend t s) f" for f
    using that inv_stored [OF assms(1), of f] assms(2) saved_terminal_worker by auto
qed

lemma inv_writeFile:
  assumes "inv s" "heap s b = Some r"
  shows "inv (writeFile (metadata r) s)"
proof (rule invI)
  show "base_inv (writeFile (metadata r) s)" using assms(1) by (simp add: inv_base)
  show "length (filter worker_task (tasks (writeFile (metadata r) s))) \<le> 1"
    using inv_single [OF assms(1)] by simp
  show "processing (writeFile (metadata r) s)
        \<and> currentRun (writeFile (metadata r) s) = Some (task_addr u)"
    if "u \<in> set (tasks (writeFile (metadata r) s))" "worker_task u" for u
    using that inv_owner [OF assms(1), of u] by auto
  show "\<exists>u \<in> set (tasks (writeFile (metadata r) s)). running_phase u \<and> task_addr u = a"
    if "running_at (writeFile (metadata r) s) a" for a
    using that inv_running [OF assms(1), of a] by auto
  show "processing (writeFile (metadata r) s)
        \<and> (\<exists>a r'. currentRun (writeFile (metadata r) s) = Some a
                 \<and> heap (writeFile (metadata r) s) a = Some r'
                 \<and> f = runs_file (id' (metadata r')))
        \<and> (\<forall>u \<in> set (tasks (writeFile (metadata r) s)). \<not> saved_terminal u)"
    if stored: "stored_running (writeFile (metadata r) s) f" for f
  proof (cases "f = runs_file (id' (metadata r))")
    case True
    with stored have "status (metadata r) = Running"
      by (simp add: stored_running_writeFile)
    with assms(2) have "running_at s b" by (auto simp: running_at_def)
    then obtain t where t: "t \<in> set (tasks s)" "running_phase t" "task_addr t = b"
      using inv_running [OF assms(1), of b] by auto
    then have w: "worker_task t" by (simp add: running_phase_worker)
    have own: "processing s \<and> currentRun s = Some b"
      using inv_owner [OF assms(1) t(1) w] t(3) by simp
    have "\<not> saved_terminal u" if "u \<in> set (tasks s)" for u
    proof
      assume u: "saved_terminal u"
      then have "u = t"
        using single_worker [OF inv_single [OF assms(1)] that t(1)] w saved_terminal_worker
        by blast
      with u t(2) show False by (simp add: saved_terminal_not_running)
    qed
    with own assms(2) True show ?thesis by auto
  next
    case False
    with stored have "stored_running s f" by (simp add: stored_running_writeFile)
    then show ?thesis using inv_stored [OF assms(1), of f] by auto
  qed
qed

lemma worker_inv_suspend:
  assumes "worker_inv s a rm rd" "worker_task t" "task_addr t = a"
    "rm \<longrightarrow> running_phase t" "rd \<longrightarrow> \<not> saved_terminal t"
  shows "inv (suspend t s)"
proof (rule invI)
  from assms(1) have none: "\<forall>u \<in> set (tasks s). \<not> worker_task u"
    and own: "processing s" "currentRun s = Some a"
    and mem: "\<And>b. running_at s b \<Longrightarrow> rm \<and> b = a"
    and disk: "\<And>f. stored_running s f \<Longrightarrow>
                 rd \<and> (\<exists>r. heap s a = Some r \<and> f = runs_file (id' (metadata r)))"
    unfolding worker_inv_def by blast+
  show "base_inv (suspend t s)" using assms(1) by (simp add: worker_inv_def)
  have "filter worker_task (tasks s) = []" using none by (simp add: filter_empty_conv)
  then show "length (filter worker_task (tasks (suspend t s))) \<le> 1" by simp
  show "processing (suspend t s) \<and> currentRun (suspend t s) = Some (task_addr u)"
    if "u \<in> set (tasks (suspend t s))" "worker_task u" for u
    using that none own assms(3) by auto
  show "\<exists>u \<in> set (tasks (suspend t s)). running_phase u \<and> task_addr u = b"
    if "running_at (suspend t s) b" for b
    using that mem [of b] assms(3,4) by auto
  show "processing (suspend t s)
        \<and> (\<exists>a r. currentRun (suspend t s) = Some a \<and> heap (suspend t s) a = Some r
                 \<and> f = runs_file (id' (metadata r)))
        \<and> (\<forall>u \<in> set (tasks (suspend t s)). \<not> saved_terminal u)"
    if "stored_running (suspend t s) f" for f
    using that disk [of f] own none assms(5) saved_terminal_worker by auto
qed

lemma worker_inv_to_inv:
  assumes "worker_inv s a rm rd" "\<not> rm \<or> heap s a = None"
  shows "inv s"
proof (rule invI)
  from assms(1) have none: "\<forall>u \<in> set (tasks s). \<not> worker_task u"
    and own: "processing s" "currentRun s = Some a"
    and mem: "\<And>b. running_at s b \<Longrightarrow> rm \<and> b = a"
    and disk: "\<And>f. stored_running s f \<Longrightarrow>
                 rd \<and> (\<exists>r. heap s a = Some r \<and> f = runs_file (id' (metadata r)))"
    unfolding worker_inv_def by blast+
  show "base_inv s" using assms(1) by (simp add: worker_inv_def)
  have "filter worker_task (tasks s) = []" using none by (simp add: filter_empty_conv)
  then show "length (filter worker_task (tasks s)) \<le> 1" by simp
  show "processing s \<and> currentRun s = Some (task_addr u)"
    if "u \<in> set (tasks s)" "worker_task u" for u
    using that none by auto
  show "\<exists>u \<in> set (tasks s). running_phase u \<and> task_addr u = b" if "running_at s b" for b
    using mem [OF that] that assms(2) by (auto simp: running_at_def)
  show "processing s
        \<and> (\<exists>a r. currentRun s = Some a \<and> heap s a = Some r \<and> f = runs_file (id' (metadata r)))
        \<and> (\<forall>u \<in> set (tasks s). \<not> saved_terminal u)"
    if "stored_running s f" for f
    using disk [OF that] own none saved_terminal_worker by auto
qed


subsection \<open>Assignments to the metadata\<close>

lemma heap_update_metadata:
  "heap (update_metadata a f s) b
     = (if b = a then map_option (\<lambda>r. r\<lparr>metadata := f (metadata r)\<rparr>) (heap s a)
        else heap s b)"
  by (simp split: option.splits)

lemma running_at_update_metadata:
  "running_at (update_metadata a f s) b
     = (if b = a then (\<exists>r. heap s a = Some r \<and> status (f (metadata r)) = Running)
        else running_at s b)"
  unfolding running_at_def heap_update_metadata by auto

lemma base_inv_update_metadata:
  assumes "base_inv s" "\<And>m. status (f m) \<noteq> Queued"
  shows "base_inv (update_metadata a f s)"
  using assms unfolding base_inv_def heap_update_metadata
  by (auto split: if_splits)

lemma worker_inv_update_terminal:
  assumes "worker_inv s a rm rd"
    and "\<And>m. status (f m) \<noteq> Queued \<and> status (f m) \<noteq> Running \<and> id' (f m) = id' m"
  shows "worker_inv (update_metadata a f s) a False rd"
proof -
  from assms(1) have none: "\<forall>u \<in> set (tasks s). \<not> worker_task u"
    and own: "processing s" "currentRun s = Some a"
    and mem: "\<And>b. running_at s b \<Longrightarrow> rm \<and> b = a"
    and disk: "\<And>f. stored_running s f \<Longrightarrow>
                 rd \<and> (\<exists>r. heap s a = Some r \<and> f = runs_file (id' (metadata r)))"
    and base: "base_inv s"
    unfolding worker_inv_def by blast+
  have b: "base_inv (update_metadata a f s)"
    using base assms(2) by (intro base_inv_update_metadata) auto
  have m: "\<not> running_at (update_metadata a f s) b" for b
    using mem [of b] assms(2) by (auto simp: running_at_update_metadata)
  have d: "rd \<and> (\<exists>r. heap (update_metadata a f s) a = Some r
                      \<and> k = runs_file (id' (metadata r)))"
    if "stored_running (update_metadata a f s) k" for k
    using that disk [of k] assms(2) by (auto simp: heap_update_metadata)
  show ?thesis
    unfolding worker_inv_def using b m d none own by simp
qed

lemma worker_inv_write_terminal:
  assumes "worker_inv s a False rd" "heap s a = Some r"
  shows "worker_inv (writeFile (metadata r) s) a False False"
proof -
  from assms(1) have none: "\<forall>u \<in> set (tasks s). \<not> worker_task u"
    and own: "processing s" "currentRun s = Some a"
    and mem: "\<And>b. \<not> running_at s b"
    and disk: "\<And>f. stored_running s f \<Longrightarrow>
                 (\<exists>r. heap s a = Some r \<and> f = runs_file (id' (metadata r)))"
    and base: "base_inv s"
    unfolding worker_inv_def by blast+
  have "status (metadata r) \<noteq> Running"
    using mem [of a] assms(2) by (auto simp: running_at_def)
  then have "\<not> stored_running (writeFile (metadata r) s) k" for k
    using disk [of k] assms(2) by (auto simp: stored_running_writeFile)
  then show ?thesis
    unfolding worker_inv_def using none own mem base by simp
qed

lemma worker_inv_write_any:
  assumes "worker_inv s a rm True" "heap s b = Some r"
  shows "worker_inv (writeFile (metadata r) s) a rm True"
proof -
  from assms(1) have none: "\<forall>u \<in> set (tasks s). \<not> worker_task u"
    and own: "processing s" "currentRun s = Some a"
    and mem: "\<And>b. running_at s b \<Longrightarrow> rm \<and> b = a"
    and disk: "\<And>f. stored_running s f \<Longrightarrow>
                 (\<exists>r. heap s a = Some r \<and> f = runs_file (id' (metadata r)))"
    and base: "base_inv s"
    unfolding worker_inv_def by blast+
  have d: "\<exists>r'. heap s a = Some r' \<and> k = runs_file (id' (metadata r'))"
    if "stored_running (writeFile (metadata r) s) k" for k
  proof (cases "k = runs_file (id' (metadata r))")
    case True
    with that have "running_at s b"
      using assms(2) by (auto simp: stored_running_writeFile running_at_def)
    with mem [of b] assms(2) True show ?thesis by auto
  next
    case False
    with that disk [of k] show ?thesis by (simp add: stored_running_writeFile)
  qed
  show ?thesis
    unfolding worker_inv_def using none own mem base d by simp
qed

lemma inv_processQueue_catch:
  assumes "worker_inv s a rm rd"
  shows "inv (processQueue_catch a i s)"
  unfolding processQueue_catch_def
  by (rule worker_inv_suspend [OF worker_inv_update_terminal [OF assms]]) simp_all

subsection \<open>The head of the loop\<close>

lemma quiet_loop:
  assumes "quiet s"
  shows "inv (loop i s)"
proof (cases "queue s")
  case Nil
  from assms have none: "\<forall>u \<in> set (tasks s). \<not> worker_task u"
    and mem: "\<And>b. \<not> running_at s b" and disk: "\<And>f. \<not> stored_running s f"
    and base: "base_inv s"
    unfolding quiet_def by blast+
  have "filter worker_task (tasks s) = []" using none by (simp add: filter_empty_conv)
  then show ?thesis
    using Nil none mem disk base by (simp add: loop_def inv_def)
next
  case (Cons run rest)
  from assms have none: "\<forall>u \<in> set (tasks s). \<not> worker_task u"
    and mem: "\<And>b. \<not> running_at s b" and disk: "\<And>f. \<not> stored_running s f"
    and base: "base_inv s" and proc: "processing s"
    unfolding quiet_def by blast+
  let ?f = "\<lambda>m. m\<lparr>status := Running,
                    timestamps := (timestamps m)\<lparr>started := Some (new_Date i)\<rparr>\<rparr>"
  let ?s1 = "s\<lparr>queue := rest, currentRun := Some run\<rparr>"
  let ?s2 = "update_metadata run ?f ?s1"
  have b2: "base_inv ?s2"
    using base Cons unfolding base_inv_def heap_update_metadata
    by (auto split: if_splits)
  have m2: "b = run" if "running_at ?s2 b" for b
    using that mem [of b] by (auto simp: running_at_update_metadata split: if_splits)
  have w: "worker_inv ?s2 run True True"
    unfolding worker_inv_def using b2 m2 none proc disk by simp
  have "inv (suspend (AwaitMkdir SaveRunning run) ?s2)"
    by (rule worker_inv_suspend [OF w]) simp_all
  then show ?thesis using Cons by (simp add: loop_def executeRun_def)
qed

lemma inv_processQueue:
  assumes "inv s" "\<not> processing s"
  shows "inv (processQueue i s)"
proof -
  have none: "\<not> worker_task u" if "u \<in> set (tasks s)" for u
    using inv_owner [OF assms(1) that] assms(2) by auto
  have mem: "\<not> running_at s b" for b
    using inv_running [OF assms(1), of b] none running_phase_worker by blast
  have disk: "\<not> stored_running s f" for f
    using inv_stored [OF assms(1), of f] assms(2) by blast
  have "quiet (s\<lparr>processing := True\<rparr>)"
    unfolding quiet_def using none mem disk inv_base [OF assms(1)] by simp
  then show ?thesis using assms(2) by (simp add: processQueue_def quiet_loop)
qed

lemma inv_next_iteration:
  assumes "worker_inv s a False False"
  shows "inv (next_iteration i s)"
proof -
  have "quiet (s\<lparr>currentRun := None\<rparr>)"
    using assms unfolding quiet_def worker_inv_def by simp
  then show ?thesis by (simp add: next_iteration_def quiet_loop)
qed

subsection \<open>createRun\<close>

lemma inv_createRun:
  assumes "inv s"
  shows "inv (createRun opts i s)"
proof -
  let ?r = "\<lparr>run_id = randomUUID i, run_options = opts, metadata = new_metadata opts i\<rparr>"
  let ?s1 = "s\<lparr>heap := (heap s)(next_addr s \<mapsto> ?r), next_addr := Suc (next_addr s),
               queue := queue s @ [next_addr s]\<rparr>"
  have fresh: "heap s (next_addr s) = None"
    using inv_base [OF assms] unfolding base_inv_def by (metis less_irrefl)
  have "inv ?s1"
  proof (rule invI)
    show "base_inv ?s1"
      using inv_base [OF assms] unfolding base_inv_def
      by (auto simp: less_Suc_eq)
    show "length (filter worker_task (tasks ?s1)) \<le> 1"
      using inv_single [OF assms] by simp
    show "processing ?s1 \<and> currentRun ?s1 = Some (task_addr u)"
      if "u \<in> set (tasks ?s1)" "worker_task u" for u
      using that inv_owner [OF assms, of u] by simp
    show "\<exists>u \<in> set (tasks ?s1). running_phase u \<and> task_addr u = b"
      if "running_at ?s1 b" for b
    proof -
      from that have "running_at s b"
        by (auto simp: running_at_def new_metadata_def split: if_splits)
      then show ?thesis using inv_running [OF assms, of b] by simp
    qed
    show "processing ?s1
          \<and> (\<exists>a r. currentRun ?s1 = Some a \<and> heap ?s1 a = Some r
                   \<and> f = runs_file (id' (metadata r)))
          \<and> (\<forall>u \<in> set (tasks ?s1). \<not> saved_terminal u)"
      if "stored_running ?s1 f" for f
    proof -
      from that have "stored_running s f" by (simp add: stored_running_def)
      from inv_stored [OF assms this] fresh show ?thesis by auto
    qed
  qed
  then have "inv (suspend (AwaitMkdir SaveInitial (next_addr s)) ?s1)"
    by (rule inv_suspend_other) simp
  then show ?thesis by (simp add: createRun_def Let_def)
qed


subsection \<open>Resuming\<close>

lemma settled_metadata_terminal:
  "status (settled_metadata opts t0 i m) \<noteq> Queued
   \<and> status (settled_metadata opts t0 i m) \<noteq> Running
   \<and> id' (settled_metadata opts t0 i m) = id' m"
  by (simp add: settled_metadata_def split: child_result.splits)

lemma inv_resume_mkdir:
  assumes w: "worker_inv s a (site = SaveRunning) True" and site: "site \<noteq> SaveInitial"
  shows "inv (resume (AwaitMkdir site a) i s)"
proof (cases "mkdir_ok i")
  case False
  show ?thesis
  proof (cases site)
    case SaveCaught
    with w have "inv s" by (intro worker_inv_to_inv [OF w]) simp
    with False SaveCaught show ?thesis by simp
  qed (use False site inv_processQueue_catch [OF w] in simp_all)
next
  case True
  show ?thesis
  proof (cases "heap s a")
    case None
    then have "inv s" by (intro worker_inv_to_inv [OF w]) simp
    with True None show ?thesis by simp
  next
    case (Some r)
    show ?thesis
    proof (cases "writeFile_ok i")
      case False
      have "inv (suspend (AwaitWrite site a False) s)"
        by (rule worker_inv_suspend [OF w]) (use site in simp_all)
      with True Some False show ?thesis by simp
    next
      case ok: True
      have "inv (suspend (AwaitWrite site a True) (writeFile (metadata r) s))"
      proof (cases "site = SaveRunning")
        case True
        with w have "worker_inv (writeFile (metadata r) s) a True True"
          using worker_inv_write_any [OF _ Some] by simp
        then show ?thesis
          by (rule worker_inv_suspend) (use True in simp_all)
      next
        case False
        with w have "worker_inv (writeFile (metadata r) s) a False False"
          using worker_inv_write_terminal [OF _ Some] by simp
        then show ?thesis
          by (rule worker_inv_suspend) (use site in simp_all)
      qed
      with True Some ok show ?thesis by simp
    qed
  qed
qed

lemma inv_resume_write:
  assumes w: "worker_inv s a (site = SaveRunning)
                (\<not> (ok \<and> (site = SaveFinal \<or> site = SaveCaught)))"
    and site: "site \<noteq> SaveInitial"
  shows "inv (resume (AwaitWrite site a ok) i s)"
proof (cases ok)
  case False
  show ?thesis
  proof (cases site)
    case SaveCaught
    with w have "inv s" by (intro worker_inv_to_inv [OF w]) simp
    with False SaveCaught show ?thesis by simp
  qed (use False site inv_processQueue_catch [OF w] in simp_all)
next
  case True
  show ?thesis
  proof (cases site)
    case SaveInitial
    with site show ?thesis by simp
  next
    case SaveRunning
    show ?thesis
    proof (cases "heap s a")
      case None
      then have "inv s" by (intro worker_inv_to_inv [OF w]) simp
      with True SaveRunning None show ?thesis by (simp add: executeRun_spawn_def)
    next
      case (Some r)
      have "worker_inv (emit (run_start (run_id r)) s) a True True"
        using w SaveRunning by simp
      then have "inv (suspend (AwaitChild a (Date_now i)) (emit (run_start (run_id r)) s))"
        by (rule worker_inv_suspend) simp_all
      with True SaveRunning Some show ?thesis by (simp add: executeRun_spawn_def)
    qed
  next
    case SaveFinal
    with w True have "worker_inv (executeRun_complete a s) a False False"
      by (simp add: executeRun_complete_def split: option.splits)
    then have "inv (next_iteration i (executeRun_complete a s))"
      by (rule inv_next_iteration)
    with True SaveFinal show ?thesis by simp
  next
    case SaveCaught
    with w True have "inv (next_iteration i s)"
      by (intro inv_next_iteration) simp
    with True SaveCaught show ?thesis by simp
  qed
qed

lemma inv_resume_child:
  assumes w: "worker_inv s a True True"
  shows "inv (resume (AwaitChild a startTime) i s)"
proof (cases "heap s a")
  case None
  then have "inv s" by (intro worker_inv_to_inv [OF w]) simp
  with None show ?thesis by (simp add: executeRun_settle_def)
next
  case (Some r)
  let ?s1 = "update_metadata a (settled_metadata (run_options r) startTime i) s"
  have w1: "worker_inv ?s1 a False True"
    by (rule worker_inv_update_terminal [OF w]) (rule settled_metadata_terminal)
  have "inv (suspend (AwaitMkdir SaveFinal a) s2)"
    if "s2 = ?s1 \<or> (\<exists>e. s2 = emit e ?s1)" for s2
  proof -
    from that w1 have "worker_inv s2 a False True" by auto
    then show ?thesis by (rule worker_inv_suspend) simp_all
  qed
  then show ?thesis
    using Some
    by (auto simp: executeRun_settle_def Let_def split: child_result.splits)
qed

lemma inv_resume_initial:
  assumes "inv s"
  shows "inv (resume (AwaitMkdir SaveInitial a) i s)"
    and "inv (resume (AwaitWrite SaveInitial a ok) i s)"
proof -
  show "inv (resume (AwaitMkdir SaveInitial a) i s)"
  proof (cases "heap s a")
    case None
    with assms show ?thesis by simp
  next
    case (Some r)
    have "inv (suspend (AwaitWrite SaveInitial a b) (writeFile (metadata r) s))" for b
      by (rule inv_suspend_other [OF inv_writeFile [OF assms Some]]) simp
    moreover have "inv (suspend (AwaitWrite SaveInitial a b) s)" for b
      by (rule inv_suspend_other [OF assms]) simp
    ultimately show ?thesis using Some assms by simp
  qed
  show "inv (resume (AwaitWrite SaveInitial a ok) i s)"
    using assms inv_processQueue [OF assms]
    by (simp split: option.splits)
qed

lemma inv_resume:
  assumes "inv s" "k < length (tasks s)"
  shows "inv (resume (tasks s ! k) i (remove_task k s))"
proof (cases "worker_task (tasks s ! k)")
  case False
  then have "inv (remove_task k s)" by (rule inv_remove_other [OF assms])
  with False show ?thesis
    by (cases "tasks s ! k") (simp_all add: inv_resume_initial del: resume.simps)
next
  case True
  note w = worker_inv_remove [OF assms True]
  show ?thesis
  proof (cases "tasks s ! k")
    case (AwaitMkdir site a)
    with w True show ?thesis
      by (simp del: resume.simps add: inv_resume_mkdir)
  next
    case (AwaitWrite site a ok)
    with w True show ?thesis
      by (simp del: resume.simps add: inv_resume_write)
  next
    case (AwaitChild a startTime)
    with w True show ?thesis
      by (simp del: resume.simps add: inv_resume_child)
  qed
qed

lemma inv_step: "inv s \<Longrightarrow> inv (step s e)"
proof (cases e)
  case (POST body i)
  assume "inv s"
  then show ?thesis
    using POST by (simp add: post_runs_def inv_createRun split: sum.splits)
next
  case (Resume k i)
  assume "inv s"
  then show ?thesis using Resume by (simp add: inv_resume del: resume.simps)
next
  case (Data k is_stderr chunk)
  assume "inv s"
  then show ?thesis
    using Data by (simp add: on_data_def split: task.splits option.splits)
qed

lemma inv_init: "inv init"
  by (simp add: inv_def init_def base_inv_def running_at_def stored_running_def)

lemma inv_foldl: "inv s \<Longrightarrow> inv (foldl step s evs)"
  by (induction evs arbitrary: s) (simp_all add: inv_step)

lemma inv_run: "inv (run evs)"
  unfolding run_def by (rule inv_foldl [OF inv_init])


subsection \<open>Where a run becomes running\<close>

lemma idle_no_running:
  assumes "inv s" "\<not> processing s"
  shows "\<not> running_at s b"
proof
  assume "running_at s b"
  then obtain t where "t \<in> set (tasks s)" "running_phase t"
    using inv_running [OF assms(1), of b] by auto
  then show False
    using inv_owner [OF assms(1), of t] assms(2) running_phase_worker by auto
qed

lemma running_update_metadata:
  assumes "running_at (update_metadata a f s) b" "\<And>m. status (f m) \<noteq> Running"
  shows "running_at s b"
  using assms by (auto simp: running_at_update_metadata split: if_splits)

lemma running_processQueue_catch:
  "running_at (processQueue_catch a i s) b \<Longrightarrow> running_at s b"
  unfolding processQueue_catch_def
  by (auto dest!: running_update_metadata)

lemma running_createRun: "running_at (createRun opts i s) b \<Longrightarrow> running_at s b"
  by (auto simp: createRun_def Let_def running_at_def new_metadata_def split: if_splits)

lemma running_settle:
  "running_at (executeRun_settle a t0 i s) b \<Longrightarrow> running_at s b"
  unfolding executeRun_settle_def Let_def
  by (auto split: option.splits child_result.splits
      dest!: running_update_metadata simp: settled_metadata_terminal)

lemma running_origin_resume:
  assumes "inv s" "k < length (tasks s)"
    "running_at (resume (tasks s ! k) i (remove_task k s)) b"
  shows "running_at s b \<or> (\<forall>c. \<not> running_at s c)"
proof (cases "tasks s ! k")
  case (AwaitMkdir site a)
  with assms(3) show ?thesis
    by (cases site)
      (auto split: if_splits option.splits dest: running_processQueue_catch)
next
  case (AwaitChild a t0)
  with assms(3) show ?thesis by (auto dest: running_settle)
next
  case (AwaitWrite site a ok)
  show ?thesis
  proof (cases site)
    case SaveInitial
    show ?thesis
    proof (cases "processing s")
      case True
      with assms(3) AwaitWrite SaveInitial show ?thesis
        by (auto split: if_splits option.splits)
    next
      case False
      then show ?thesis using idle_no_running [OF assms(1)] by blast
    qed
  next
    case SaveRunning
    with assms(3) AwaitWrite show ?thesis
      by (auto simp: executeRun_spawn_def split: if_splits option.splits
          dest: running_processQueue_catch)
  next
    case SaveFinal
    show ?thesis
    proof (cases ok)
      case False
      with assms(3) AwaitWrite SaveFinal show ?thesis
        by (auto dest: running_processQueue_catch)
    next
      case True
      have "worker_inv (remove_task k s) a False False"
        using worker_inv_remove [OF assms(1,2)] AwaitWrite SaveFinal True by simp
      then show ?thesis by (simp add: worker_inv_def)
    qed
  next
    case SaveCaught
    show ?thesis
    proof (cases ok)
      case False
      with assms(3) AwaitWrite SaveCaught show ?thesis by auto
    next
      case True
      have "worker_inv (remove_task k s) a False False"
        using worker_inv_remove [OF assms(1,2)] AwaitWrite SaveCaught True by simp
      then show ?thesis by (simp add: worker_inv_def)
    qed
  qed
qed

lemma running_origin:
  assumes "inv s" "running_at (step s e) b"
  shows "running_at s b \<or> (\<forall>c. \<not> running_at s c)"
proof (cases e)
  case (POST body i)
  with assms(2) show ?thesis
    by (auto simp: post_runs_def split: sum.splits dest: running_createRun)
next
  case (Resume k i)
  with assms show ?thesis
    using running_origin_resume [of s k i b] by (auto split: if_splits)
next
  case (Data k is_stderr chunk)
  with assms(2) show ?thesis
    by (auto simp: on_data_def split: if_splits task.splits option.splits)
qed

lemma status_cases: "st = Queued \<or> st = Running \<or> st = Completed \<or> st = Failed"
  by (cases st) auto

text \<open>
  C1. In every state the service reaches, whatever requests arrive and however the
  awaited operations end: at most one run object has status \<^verbatim>\<open>running\<close>, and at most
  one stored record has; and when a step sets a run to \<^verbatim>\<open>running\<close>, every run object
  before that step is either still waiting in the queue with status \<^verbatim>\<open>queued\<close> or has
  a terminal status, \<^verbatim>\<open>completed\<close> or \<^verbatim>\<open>failed\<close>. (For the stored records this rests on
  writes to one file taking effect in the order in which they are issued.)
\<close>

theorem at_most_one_running:
  "(running_at (run evs) a \<and> running_at (run evs) b \<longrightarrow> a = b)
   \<and> (stored_running (run evs) f \<and> stored_running (run evs) g \<longrightarrow> f = g)
   \<and> (\<not> running_at (run evs) a \<and> running_at (step (run evs) e) a \<longrightarrow>
        (\<forall>c r. heap (run evs) c = Some r \<longrightarrow>
           (status (metadata r) = Queued \<and> c \<in> set (queue (run evs)))
           \<or> status (metadata r) = Completed \<or> status (metadata r) = Failed))"
proof (intro conjI impI)
  let ?s = "run evs"
  have i: "inv ?s" by (rule inv_run)
  have cur: "currentRun ?s = Some c" if "running_at ?s c" for c
  proof -
    from that obtain t where "t \<in> set (tasks ?s)" "running_phase t" "task_addr t = c"
      using inv_running [OF i, of c] by auto
    then show ?thesis using inv_owner [OF i, of t] running_phase_worker by auto
  qed
  show "a = b" if "running_at ?s a \<and> running_at ?s b"
    using that cur [of a] cur [of b] by simp
  show "f = g" if "stored_running ?s f \<and> stored_running ?s g"
    using that inv_stored [OF i, of f] inv_stored [OF i, of g] by auto
  show "\<forall>c r. heap ?s c = Some r \<longrightarrow>
           (status (metadata r) = Queued \<and> c \<in> set (queue ?s))
           \<or> status (metadata r) = Completed \<or> status (metadata r) = Failed"
    if "\<not> running_at ?s a \<and> running_at (step ?s e) a"
  proof (intro allI impI)
    fix c r assume c: "heap ?s c = Some r"
    from that have "\<not> running_at ?s c" using running_origin [OF i, of e a] by blast
    with c have "status (metadata r) \<noteq> Running" by (auto simp: running_at_def)
    moreover have "status (metadata r) = Queued \<longrightarrow> c \<in> set (queue ?s)"
      using inv_base [OF i] c unfolding base_inv_def by blast
    ultimately show "(status (metadata r) = Queued \<and> c \<in> set (queue ?s))
           \<or> status (metadata r) = Completed \<or> status (metadata r) = Failed"
      using status_cases [of "status (metadata r)"] by blast
  qed
qed

section \<open>Sample runs\<close>

lemmas sample_defs = sample_inputs_def later_inputs_def sample_options_def
  sample_queued_def sample_running_def finished_record_def
  new_metadata_def runs_file_def

lemmas trace_defs = run_def admitted_def started_def init_def
  sample_parse post_runs_def createRun_def executeRun_def executeRun_spawn_def
  executeRun_settle_def executeRun_complete_def loop_def processQueue_def
  processQueue_catch_def next_iteration_def

lemma run_admitted:
  "run admitted =
     init\<lparr>heap := [0 \<mapsto> \<lparr>run_id = ''run-1'', run_options = sample_options,
                          metadata = sample_queued\<rparr>],
          next_addr := 1, queue := [0], tasks := [AwaitWrite SaveInitial 0 True],
          files := [''run-1.json'' \<mapsto> Json sample_queued]\<rparr>"
  by (simp add: trace_defs sample_defs suspend_def writeFile_def remove_task_def)

lemma run_started:
  "run started =
     init\<lparr>heap := [0 \<mapsto> \<lparr>run_id = ''run-1'', run_options = sample_options,
                          metadata = sample_running\<rparr>],
          next_addr := 1, queue := [], currentRun := Some 0, processing := True,
          tasks := [AwaitMkdir SaveRunning 0],
          files := [''run-1.json'' \<mapsto> Json sample_queued],
          responses := [Created ''run-1'']\<rparr>"
  by (simp add: trace_defs sample_defs suspend_def writeFile_def remove_task_def
      update_metadata_def reply_def)

lemma finished_record_id: "id' (finished_record c) = ''run-1''"
  by (simp add: sample_defs settled_metadata_def split: child_result.splits)

lemma run_spawned:
  "run spawned =
     init\<lparr>heap := [0 \<mapsto> \<lparr>run_id = ''run-1'', run_options = sample_options,
                          metadata = sample_running\<rparr>],
          next_addr := 1, queue := [], currentRun := Some 0, processing := True,
          tasks := [AwaitChild 0 1000],
          files := [''run-1.json'' \<mapsto> Json sample_running],
          emitted_log := [run_start ''run-1''],
          responses := [Created ''run-1'']\<rparr>"
proof -
  have "run spawned
          = foldl step (run started) [Resume 0 sample_inputs, Resume 0 sample_inputs]"
    by (simp add: spawned_def run_def)
  then show ?thesis
    unfolding run_started
    by (simp add: init_def executeRun_spawn_def sample_inputs_def sample_running_def
        sample_queued_def new_metadata_def runs_file_def suspend_def writeFile_def
        remove_task_def emit_def)
qed

lemma run_finished:
  "run (finished c) =
     init\<lparr>heap := [0 \<mapsto> \<lparr>run_id = ''run-1'', run_options = sample_options,
                          metadata = finished_record c\<rparr>],
          next_addr := 1,
          files := [''run-1.json'' \<mapsto> Json (finished_record c)],
          emitted_log :=
            run_start ''run-1''
            # (case c of Resolved \<Rightarrow> []
                | Rejected e \<Rightarrow> [run_error ''run-1'' (message_or_unknown e)])
            @ [run_complete ''run-1'' (finished_record c)],
          responses := [Created ''run-1'']\<rparr>"
proof -
  have "run (finished c) = foldl step (run spawned)
          [Resume 0 (later_inputs\<lparr>child := c\<rparr>), Resume 0 later_inputs, Resume 0 later_inputs]"
    by (simp add: finished_def run_def)
  also have "\<dots> = foldl step
       (init\<lparr>heap := [0 \<mapsto> \<lparr>run_id = ''run-1'', run_options = sample_options,
                          metadata = finished_record c\<rparr>],
          next_addr := 1, queue := [], currentRun := Some 0, processing := True,
          tasks := [AwaitMkdir SaveFinal 0],
          files := [''run-1.json'' \<mapsto> Json sample_running],
          emitted_log :=
            run_start ''run-1''
            # (case c of Resolved \<Rightarrow> []
                | Rejected e \<Rightarrow> [run_error ''run-1'' (message_or_unknown e)]),
          responses := [Created ''run-1'']\<rparr>)
       [Resume 0 later_inputs, Resume 0 later_inputs]"
    unfolding run_spawned
    by (cases c)
      (simp_all add: init_def executeRun_settle_def finished_record_def
        suspend_def remove_task_def update_metadata_def emit_def)
  also have "\<dots> = init\<lparr>heap := [0 \<mapsto> \<lparr>run_id = ''run-1'', run_options = sample_options,
                          metadata = finished_record c\<rparr>],
          next_addr := 1,
          files := [''run-1.json'' \<mapsto> Json (finished_record c)],
          emitted_log :=
            run_start ''run-1''
            # (case c of Resolved \<Rightarrow> []
                | Rejected e \<Rightarrow> [run_error ''run-1'' (message_or_unknown e)])
            @ [run_complete ''run-1'' (finished_record c)],
          responses := [Created ''run-1'']\<rparr>"
    by (simp add: init_def later_inputs_def sample_inputs_def finished_record_id runs_file_def
        executeRun_complete_def next_iteration_def loop_def
        suspend_def writeFile_def remove_task_def emit_def)
  finally show ?thesis .
qed

lemma run_snoc: "run (evs @ [e]) = step (run evs) e"
  by (simp add: run_def)

lemma run_saved_running:
  "run (started @ [Resume 0 sample_inputs]) =
     init\<lparr>heap := [0 \<mapsto> \<lparr>run_id = ''run-1'', run_options = sample_options,
                          metadata = sample_running\<rparr>],
          next_addr := 1, queue := [], currentRun := Some 0, processing := True,
          tasks := [AwaitWrite SaveRunning 0 True],
          files := [''run-1.json'' \<mapsto> Json sample_running],
          responses := [Created ''run-1'']\<rparr>"
  unfolding run_snoc run_started
  by (simp add: sample_defs suspend_def writeFile_def remove_task_def)

theorem at_most_one_running_witness:
  "running_at (run started) 0
   \<and> stored_running (run (started @ [Resume 0 sample_inputs])) ''run-1.json''
   \<and> \<not> running_at (run admitted) 0
   \<and> running_at (step (run admitted) (Resume 0 sample_inputs)) 0
   \<and> (\<exists>r. heap (run admitted) 0 = Some r \<and> status (metadata r) = Queued
          \<and> 0 \<in> set (queue (run admitted)))"
proof -
  have s: "step (run admitted) (Resume 0 sample_inputs) = run started"
    by (simp add: started_def run_snoc)
  have a: "running_at (run started) 0"
    by (simp add: run_started running_at_def sample_running_def)
  have b: "stored_running (run (started @ [Resume 0 sample_inputs])) ''run-1.json''"
    by (simp add: run_saved_running stored_running_def sample_running_def)
  have c: "\<not> running_at (run admitted) 0"
    by (simp add: run_admitted running_at_def sample_queued_def new_metadata_def)
  have d: "\<exists>r. heap (run admitted) 0 = Some r \<and> status (metadata r) = Queued
          \<and> 0 \<in> set (queue (run admitted))"
    by (simp add: run_admitted sample_queued_def new_metadata_def init_def)
  show ?thesis
    using at_most_one_running [of started 0 0 "''run-1.json''" "''run-1.json''"]
      at_most_one_running [of admitted 0 0 "''run-1.json''" "''run-1.json''"
        "Resume 0 sample_inputs"] a b c d s
    by simp
qed

section \<open>What a step changes\<close>

lemma frame_refl: "frame s s"
  by (auto simp: frame_def assigned_def)

lemma frame_heap_files:
  "heap s2 = heap s1 \<Longrightarrow> files s2 = files s1 \<Longrightarrow> frame s s2 = frame s s1"
  by (simp add: frame_def)

lemma frame_simps [simp]:
  "frame s (suspend t s') = frame s s'" "frame s (emit e s') = frame s s'"
  "frame s (reply r s') = frame s s'" "frame s (remove_task k s') = frame s s'"
  "frame s (s'\<lparr>processing := p\<rparr>) = frame s s'"
  "frame s (s'\<lparr>currentRun := c\<rparr>) = frame s s'"
  "frame s (s'\<lparr>queue := q\<rparr>) = frame s s'"
  by (simp_all add: frame_def)

lemma frame_pre_simps [simp]:
  "frame (remove_task k s) s' = frame s s'"
  "frame (s\<lparr>processing := p\<rparr>) s' = frame s s'"
  "frame (s\<lparr>currentRun := c\<rparr>) s' = frame s s'"
  "frame (s\<lparr>queue := q\<rparr>) s' = frame s s'"
  "frame (emit e s) s' = frame s s'"
  by (simp_all add: frame_def)

lemma frame_update_metadata:
  assumes "\<And>r. heap s a = Some r \<Longrightarrow> assigned (run_options r) (metadata r) (f (metadata r))"
  shows "frame s (update_metadata a f s)"
  unfolding frame_def heap_update_metadata using assms
  by (auto simp: assigned_def split: option.splits)

lemma frame_writeFile:
  assumes "heap s a = Some r"
  shows "frame s (writeFile (metadata r) s)"
  unfolding frame_def using assms by (auto simp: assigned_def)

lemma frame_createRun:
  assumes "heap s (next_addr s) = None"
  shows "frame s (createRun opts i s)"
  unfolding frame_def createRun_def Let_def using assms
  by (auto simp: assigned_def)

lemma frame_executeRun: "frame s (executeRun a i s)"
  unfolding executeRun_def
  by (auto intro!: frame_update_metadata simp: assigned_def)

lemma frame_processQueue_catch: "frame s (processQueue_catch a i s)"
  unfolding processQueue_catch_def
  by (auto intro!: frame_update_metadata simp: assigned_def)

lemma frame_loop: "frame s (loop i s)"
proof (cases "queue s")
  case Nil
  then show ?thesis by (simp add: loop_def frame_refl)
next
  case (Cons run rest)
  have "frame (s\<lparr>queue := rest, currentRun := Some run\<rparr>)
          (executeRun run i (s\<lparr>queue := rest, currentRun := Some run\<rparr>))"
    by (rule frame_executeRun)
  then show ?thesis using Cons by (simp add: loop_def)
qed

lemma frame_processQueue: "frame s (processQueue i s)"
  using frame_loop [of "s\<lparr>processing := True\<rparr>" i]
  by (simp add: processQueue_def frame_refl)

lemma frame_next_iteration: "frame s (next_iteration i s)"
  using frame_loop [of "s\<lparr>currentRun := None\<rparr>" i]
  by (simp add: next_iteration_def)

lemma frame_settle: "frame s (executeRun_settle a t0 i s)"
proof (cases "heap s a")
  case None
  then show ?thesis by (simp add: executeRun_settle_def frame_refl)
next
  case (Some r)
  have "frame s (update_metadata a (settled_metadata (run_options r) t0 i) s)"
    using Some by (intro frame_update_metadata) (auto simp: assigned_def)
  then show ?thesis
    using Some by (simp add: executeRun_settle_def Let_def split: child_result.splits)
qed

lemma frame_resume: "frame s (resume t i s)"
proof (cases t)
  case (AwaitMkdir site a)
  then show ?thesis
    by (cases site)
      (auto simp: frame_refl frame_processQueue_catch frame_writeFile split: option.splits)
next
  case (AwaitWrite site a ok)
  have "frame s (next_iteration i (executeRun_complete a s))"
    using frame_next_iteration [of "executeRun_complete a s" i]
    by (simp add: executeRun_complete_def split: option.splits)
  with AwaitWrite show ?thesis
    by (cases site)
      (auto simp: frame_refl frame_processQueue_catch frame_processQueue
        frame_next_iteration executeRun_spawn_def split: option.splits)
next
  case (AwaitChild a t0)
  then show ?thesis by (simp add: frame_settle)
qed

lemma frame_step:
  assumes "heap s (next_addr s) = None"
  shows "frame s (step s e)"
proof (cases e)
  case (POST body i)
  then show ?thesis
    using assms by (simp add: post_runs_def frame_refl frame_createRun split: sum.splits)
next
  case (Resume k i)
  then show ?thesis
    using frame_resume [of "remove_task k s" "tasks s ! k" i]
    by (simp add: frame_refl del: resume.simps)
next
  case (Data k is_stderr chunk)
  then show ?thesis
    by (simp add: on_data_def frame_refl split: task.splits option.splits)
qed

lemma fresh_run: "heap (run evs) (next_addr (run evs)) = None"
  using inv_base [OF inv_run, of evs] unfolding base_inv_def by (metis less_irrefl)

lemma frame_run: "frame (run evs) (step (run evs) e)"
  by (rule frame_step [OF fresh_run])


section \<open>The end of the child\<close>

lemma settle_rejected:
  assumes "heap s a = Some r" "child i = Rejected e"
  shows "executeRun_settle a t0 i s =
           suspend (AwaitMkdir SaveFinal a)
             (emit (run_error (run_id r) (message_or_unknown e))
               (update_metadata a
                  (\<lambda>m. m\<lparr>status := Failed,
                          timestamps := (timestamps m)\<lparr>completed := Some (new_Date i)\<rparr>,
                          results := Some \<lparr>exitCode = exitCode_or_1 e,
                                            durationMs = Date_now i - t0\<rparr>\<rparr>) s))"
proof -
  have "settled_metadata (run_options r) t0 i
          = (\<lambda>m. m\<lparr>status := Failed,
                    timestamps := (timestamps m)\<lparr>completed := Some (new_Date i)\<rparr>,
                    results := Some \<lparr>exitCode = exitCode_or_1 e,
                                      durationMs = Date_now i - t0\<rparr>\<rparr>)"
    using assms(2) by (simp add: settled_metadata_def fun_eq_iff)
  with assms show ?thesis by (simp add: executeRun_settle_def)
qed

lemma nth_remove_append:
  assumes "k < length ts"
  shows "(take k ts @ drop (Suc k) ts @ [t]) ! (length ts - Suc 0) = t"
proof -
  have "length (take k ts @ drop (Suc k) ts) = length ts - Suc 0"
    using assms by simp
  then show ?thesis
    by (metis append.assoc nth_append_length)
qed

text \<open>The two steps from the end of the child to the stored record.\<close>

lemma stored_after_rejection:
  assumes k: "k < length (tasks s)" "tasks s ! k = AwaitChild a t0"
    and r: "heap s a = Some r" and e: "child i = Rejected e"
    and j: "mkdir_ok j" "writeFile_ok j"
  shows "files (step (step s (Resume k i)) (Resume (length (tasks s) - 1) j))
           (runs_file (id' (metadata r)))
         = Some (Json ((metadata r)
              \<lparr>status := Failed,
               timestamps := (timestamps (metadata r))\<lparr>completed := Some (new_Date i)\<rparr>,
               results := Some \<lparr>exitCode = exitCode_or_1 e,
                                 durationMs = Date_now i - t0\<rparr>\<rparr>))"
proof -
  let ?m = "(metadata r)
              \<lparr>status := Failed,
               timestamps := (timestamps (metadata r))\<lparr>completed := Some (new_Date i)\<rparr>,
               results := Some \<lparr>exitCode = exitCode_or_1 e,
                                 durationMs = Date_now i - t0\<rparr>\<rparr>"
  define s1 where "s1 = step s (Resume k i)"
  have "s1 = executeRun_settle a t0 i (remove_task k s)"
    using k by (simp add: s1_def)
  then have s1: "s1 = suspend (AwaitMkdir SaveFinal a)
             (emit (run_error (run_id r) (message_or_unknown e))
               (update_metadata a
                  (\<lambda>m. m\<lparr>status := Failed,
                          timestamps := (timestamps m)\<lparr>completed := Some (new_Date i)\<rparr>,
                          results := Some \<lparr>exitCode = exitCode_or_1 e,
                                            durationMs = Date_now i - t0\<rparr>\<rparr>)
                  (remove_task k s)))"
    using settle_rejected [of "remove_task k s" a r i e t0] r e by simp
  have len: "length (tasks s1) = length (tasks s)"
    using k(1) by (simp add: s1 min_def)
  have nth: "tasks s1 ! (length (tasks s) - 1) = AwaitMkdir SaveFinal a"
    using k(1) by (simp add: s1 nth_remove_append)
  have h: "heap s1 a = Some (r\<lparr>metadata := ?m\<rparr>)"
    using r by (simp add: s1)
  have "step s1 (Resume (length (tasks s) - 1) j)
          = resume (AwaitMkdir SaveFinal a) j (remove_task (length (tasks s) - 1) s1)"
    using k(1) len nth by simp
  then show ?thesis
    unfolding s1_def [symmetric] using h j by simp
qed


lemma queue_loop: "queue (loop i s) = tl (queue s)"
  by (simp add: loop_def executeRun_def split: list.splits)

lemma queue_resume: "set (queue (resume t i s)) \<subseteq> set (queue s)"
proof (cases t)
  case (AwaitMkdir site a)
  then show ?thesis
    by (cases site) (auto simp: processQueue_catch_def split: option.splits)
next
  case (AwaitWrite site a ok)
  have "set (tl (queue s)) \<subseteq> set (queue s)" by (cases "queue s") auto
  with AwaitWrite show ?thesis
    by (cases site)
      (auto simp: processQueue_catch_def processQueue_def next_iteration_def queue_loop
        executeRun_spawn_def executeRun_complete_def split: option.splits)
next
  case (AwaitChild a t0)
  then show ?thesis
    by (auto simp: executeRun_settle_def Let_def split: option.splits child_result.splits)
qed

lemma queue_step: "set (queue (step s e)) \<subseteq> insert (next_addr s) (set (queue s))"
proof (cases e)
  case (POST body i)
  then show ?thesis
    by (auto simp: post_runs_def createRun_def Let_def split: sum.splits)
next
  case (Resume k i)
  then show ?thesis
    using queue_resume [of "tasks s ! k" i "remove_task k s"]
    by (auto simp del: resume.simps)
next
  case (Data k is_stderr chunk)
  then show ?thesis by (auto simp: on_data_def split: task.splits option.splits)
qed

section \<open>The life of a run\<close>

lemma life_inv_simps [simp]:
  "life_inv (suspend t s) = life_inv s" "life_inv (emit e s) = life_inv s"
  "life_inv (reply r s) = life_inv s" "life_inv (writeFile m s) = life_inv s"
  "life_inv (remove_task k s) = life_inv s"
  "life_inv (s\<lparr>processing := p\<rparr>) = life_inv s"
  by (simp_all add: life_inv_def)

lemma life_update_terminal:
  assumes "life_inv s" "currentRun s = Some a"
    "\<And>m. status (f m) \<noteq> Queued \<and> status (f m) \<noteq> Running"
  shows "life_inv (update_metadata a f s)"
proof -
  from assms(1,2) have notq: "a \<notin> set (queue s)" unfolding life_inv_def by blast
  show ?thesis
    unfolding life_inv_def heap_update_metadata
    using assms(1,3) notq unfolding life_inv_def
    by (auto split: if_splits)
qed

lemma life_processQueue_catch:
  "life_inv s \<Longrightarrow> currentRun s = Some a \<Longrightarrow> life_inv (processQueue_catch a i s)"
  unfolding processQueue_catch_def by (simp add: life_update_terminal)

lemma life_settle:
  "life_inv s \<Longrightarrow> currentRun s = Some a \<Longrightarrow> life_inv (executeRun_settle a t0 i s)"
  unfolding executeRun_settle_def Let_def
  by (auto split: option.splits child_result.splits
      intro!: life_update_terminal simp: settled_metadata_terminal)

lemma life_loop:
  assumes "life_inv s"
  shows "life_inv (loop i s)"
proof (cases "queue s")
  case Nil
  with assms show ?thesis by (simp add: loop_def)
next
  case (Cons run rest)
  from assms Cons obtain r where r: "heap s run = Some r" "status (metadata r) = Queued"
    unfolding life_inv_def by auto
  from assms Cons have d: "run \<notin> set rest" "distinct rest"
    unfolding life_inv_def by auto
  have "life_inv (update_metadata run
          (\<lambda>m. m\<lparr>status := Running,
                  timestamps := (timestamps m)\<lparr>started := Some (new_Date i)\<rparr>\<rparr>)
          (s\<lparr>queue := rest, currentRun := Some run\<rparr>))"
    unfolding life_inv_def heap_update_metadata
    using assms Cons r d unfolding life_inv_def
    by (auto split: if_splits)
  with Cons show ?thesis by (simp add: loop_def executeRun_def)
qed

lemma life_processQueue: "life_inv s \<Longrightarrow> life_inv (processQueue i s)"
  by (simp add: processQueue_def life_loop)

lemma life_next_iteration: "life_inv s \<Longrightarrow> life_inv (next_iteration i s)"
proof -
  assume "life_inv s"
  then have "life_inv (s\<lparr>currentRun := None\<rparr>)" by (simp add: life_inv_def)
  then show ?thesis by (simp add: next_iteration_def life_loop)
qed

lemma life_createRun:
  assumes "life_inv s" "heap s (next_addr s) = None"
  shows "life_inv (createRun opts i s)"
proof -
  have "next_addr s \<notin> set (queue s)"
    using assms unfolding life_inv_def by auto
  then show ?thesis
    using assms unfolding life_inv_def createRun_def Let_def
    by (auto simp: new_metadata_def no_artifacts_def)
qed

lemma life_resume:
  assumes "life_inv s" "worker_task t \<longrightarrow> currentRun s = Some (task_addr t)"
  shows "life_inv (resume t i s)"
proof (cases t)
  case (AwaitMkdir site a)
  with assms show ?thesis
    by (cases site) (auto simp: life_processQueue_catch split: option.splits)
next
  case (AwaitWrite site a ok)
  have "life_inv (executeRun_complete a s)"
    using assms(1) by (simp add: executeRun_complete_def split: option.splits)
  with AwaitWrite assms show ?thesis
    by (cases site)
      (auto simp: life_processQueue_catch life_processQueue life_next_iteration
        executeRun_spawn_def split: option.splits)
next
  case (AwaitChild a t0)
  with assms show ?thesis by (simp add: life_settle)
qed

lemma life_step:
  assumes "inv s" "life_inv s"
  shows "life_inv (step s e)"
proof (cases e)
  case (POST body i)
  have "heap s (next_addr s) = None"
    using inv_base [OF assms(1)] unfolding base_inv_def by (metis less_irrefl)
  with POST assms(2) show ?thesis
    by (simp add: post_runs_def life_createRun split: sum.splits)
next
  case (Resume k i)
  show ?thesis
  proof (cases "k < length (tasks s)")
    case True
    have "worker_task (tasks s ! k) \<longrightarrow>
            currentRun (remove_task k s) = Some (task_addr (tasks s ! k))"
      using inv_owner [OF assms(1), of "tasks s ! k"] True by simp
    then have "life_inv (resume (tasks s ! k) i (remove_task k s))"
      using assms(2) by (intro life_resume) simp_all
    with Resume True show ?thesis by (simp del: resume.simps)
  next
    case False
    with Resume assms(2) show ?thesis by simp
  qed
next
  case (Data k is_stderr chunk)
  with assms(2) show ?thesis
    by (simp add: on_data_def split: task.splits option.splits)
qed

lemma life_run: "life_inv (run evs)"
proof (induction evs rule: rev_induct)
  case Nil
  show ?case by (simp add: run_def init_def life_inv_def)
next
  case (snoc e evs)
  then show ?case unfolding run_snoc by (rule life_step [OF inv_run])
qed


section \<open>The phase of the worker\<close>

lemma phase_calm: "\<forall>t \<in> set (tasks s). \<not> running_phase t \<Longrightarrow> phase_inv s"
  by (simp add: phase_inv_def)

lemma phase_inv_simps [simp]:
  "phase_inv (emit e s) = phase_inv s" "phase_inv (reply r s) = phase_inv s"
  "phase_inv (writeFile m s) = phase_inv s"
  "phase_inv (s\<lparr>processing := p\<rparr>) = phase_inv s"
  "phase_inv (s\<lparr>currentRun := c\<rparr>) = phase_inv s"
  by (simp_all add: phase_inv_def)

lemma phase_suspend:
  assumes "phase_inv s" "running_phase t \<longrightarrow> running_at s (task_addr t)"
  shows "phase_inv (suspend t s)"
  using assms by (auto simp: phase_inv_def)

lemma phase_loop:
  assumes "life_inv s" "\<forall>t \<in> set (tasks s). \<not> running_phase t"
  shows "phase_inv (loop i s)"
proof (cases "queue s")
  case Nil
  with assms(2) show ?thesis by (simp add: loop_def phase_calm)
next
  case (Cons run rest)
  from assms(1) Cons obtain r where "heap s run = Some r"
    unfolding life_inv_def by auto
  then have "running_at (update_metadata run
          (\<lambda>m. m\<lparr>status := Running,
                  timestamps := (timestamps m)\<lparr>started := Some (new_Date i)\<rparr>\<rparr>)
          (s\<lparr>queue := rest, currentRun := Some run\<rparr>)) run"
    by (simp add: running_at_update_metadata)
  with assms(2) Cons show ?thesis
    by (auto simp: loop_def executeRun_def phase_inv_def)
qed

lemma phase_resume_worker:
  assumes calm: "\<forall>u \<in> set (tasks s). \<not> running_phase u" and life: "life_inv s"
    and here: "running_phase t \<longrightarrow> running_at s (task_addr t)" and w: "worker_task t"
  shows "phase_inv (resume t i s)"
proof -
  have c: "phase_inv s" using calm by (rule phase_calm)
  have catch: "phase_inv (processQueue_catch a i s)" for a
    unfolding processQueue_catch_def using calm by (auto simp: phase_inv_def)
  have nxt: "phase_inv (next_iteration i s')"
    if "tasks s' = tasks s" "life_inv s'" for s'
    unfolding next_iteration_def
    by (rule phase_loop) (use that calm in \<open>simp_all add: life_inv_def\<close>)
  show ?thesis
  proof (cases t)
    case (AwaitMkdir site a)
    with c catch here w show ?thesis
      by (cases site) (auto intro!: phase_suspend split: option.splits)
  next
    case (AwaitWrite site a ok)
    have "phase_inv (next_iteration i (executeRun_complete a s))"
      by (rule nxt) (use life in \<open>simp_all add: executeRun_complete_def split: option.splits\<close>)
    moreover have "phase_inv (next_iteration i s)"
      by (rule nxt) (use life in simp_all)
    ultimately show ?thesis
      using AwaitWrite c catch here w
      by (cases site)
        (auto intro!: phase_suspend simp: executeRun_spawn_def split: option.splits)
  next
    case (AwaitChild a t0)
    with calm show ?thesis
      by (auto simp: executeRun_settle_def Let_def phase_inv_def
          split: option.splits child_result.splits)
  qed
qed

lemma phase_resume_initial:
  assumes "phase_inv s" "life_inv s"
    "\<not> processing s \<longrightarrow> (\<forall>u \<in> set (tasks s). \<not> running_phase u)"
    "\<not> worker_task t"
  shows "phase_inv (resume t i s)"
proof (cases t)
  case (AwaitMkdir site a)
  with assms(1,4) show ?thesis
    by (auto intro!: phase_suspend split: option.splits)
next
  case (AwaitWrite site a ok)
  have "phase_inv (processQueue i s)" if "\<not> processing s"
    unfolding processQueue_def using that assms(2,3)
    by (auto intro!: phase_loop)
  with AwaitWrite assms(1,4) show ?thesis
    by (auto split: option.splits)
next
  case (AwaitChild a t0)
  with assms(4) show ?thesis by simp
qed

lemma phase_remove:
  "phase_inv s \<Longrightarrow> phase_inv (remove_task k s)"
  unfolding phase_inv_def using set_remove_subset [of k "tasks s"] by auto

lemma phase_createRun:
  assumes "phase_inv s" "heap s (next_addr s) = None"
  shows "phase_inv (createRun opts i s)"
proof -
  have "running_at (createRun opts i s) a" if "running_at s a" for a
    using that assms(2) by (auto simp: running_at_def createRun_def Let_def)
  with assms(1) show ?thesis
    by (auto simp: phase_inv_def createRun_def Let_def)
qed

lemma phase_step:
  assumes "inv s" "life_inv s" "phase_inv s"
  shows "phase_inv (step s e)"
proof (cases e)
  case (POST body i)
  have "heap s (next_addr s) = None"
    using inv_base [OF assms(1)] unfolding base_inv_def by (metis less_irrefl)
  with POST assms(3) show ?thesis
    by (simp add: post_runs_def phase_createRun split: sum.splits)
next
  case (Data k is_stderr chunk)
  with assms(3) show ?thesis
    by (simp add: on_data_def split: task.splits option.splits)
next
  case (Resume k i)
  show ?thesis
  proof (cases "k < length (tasks s)")
    case False
    with Resume assms(3) show ?thesis by simp
  next
    case True
    let ?t = "tasks s ! k"
    have "phase_inv (resume ?t i (remove_task k s))"
    proof (cases "worker_task ?t")
      case w: True
      have "\<forall>u \<in> set (tasks (remove_task k s)). \<not> running_phase u"
        using filter_remove_worker [OF True w inv_single [OF assms(1)]] running_phase_worker
        by auto
      moreover have "running_phase ?t \<longrightarrow> running_at (remove_task k s) (task_addr ?t)"
        using assms(3) True unfolding phase_inv_def by simp
      ultimately show ?thesis
        using assms(2) w by (intro phase_resume_worker) simp_all
    next
      case w: False
      have "\<forall>u \<in> set (tasks (remove_task k s)). \<not> running_phase u" if "\<not> processing s"
      proof
        fix u assume "u \<in> set (tasks (remove_task k s))"
        then have "u \<in> set (tasks s)" using set_remove_subset [of k "tasks s"] by auto
        then show "\<not> running_phase u"
          using inv_owner [OF assms(1), of u] that running_phase_worker by auto
      qed
      then show ?thesis
        using assms(2) w phase_remove [OF assms(3), of k]
        by (intro phase_resume_initial) simp_all
    qed
    with Resume True show ?thesis by (simp del: resume.simps)
  qed
qed

lemma phase_run: "phase_inv (run evs)"
proof (induction evs rule: rev_induct)
  case Nil
  show ?case by (simp add: run_def init_def phase_inv_def)
next
  case (snoc e evs)
  then show ?case unfolding run_snoc by (rule phase_step [OF inv_run life_run])
qed


section \<open>Where status and outcome change\<close>

lemma running_loop:
  "running_at (loop i s) c \<Longrightarrow> running_at s c \<or> c \<in> set (queue s)"
  by (cases "queue s")
    (auto simp: loop_def executeRun_def running_at_update_metadata split: if_splits)

lemma running_processQueue:
  "running_at (processQueue i s) c \<Longrightarrow> running_at s c \<or> c \<in> set (queue s)"
  by (auto simp: processQueue_def dest!: running_loop split: if_splits)

lemma running_next_iteration:
  "running_at (next_iteration i s) c \<Longrightarrow> running_at s c \<or> c \<in> set (queue s)"
  by (auto simp: next_iteration_def dest!: running_loop)

lemma running_resume:
  "running_at (resume t i s) c \<Longrightarrow> running_at s c \<or> c \<in> set (queue s)"
proof (cases t)
  case (AwaitMkdir site a)
  assume "running_at (resume t i s) c"
  with AwaitMkdir show ?thesis
    by (cases site)
      (auto split: if_splits option.splits dest: running_processQueue_catch)
next
  case (AwaitChild a t0)
  assume "running_at (resume t i s) c"
  with AwaitChild show ?thesis by (auto dest: running_settle)
next
  case (AwaitWrite site a ok)
  assume "running_at (resume t i s) c"
  with AwaitWrite show ?thesis
    by (cases site)
      (auto simp: executeRun_spawn_def executeRun_complete_def
        split: if_splits option.splits
        dest: running_processQueue_catch running_processQueue running_next_iteration)
qed

lemma running_step:
  assumes "running_at (step s e) c"
  shows "running_at s c \<or> c \<in> set (queue s)"
proof (cases e)
  case (POST body i)
  with assms show ?thesis
    by (auto simp: post_runs_def split: sum.splits dest: running_createRun)
next
  case (Resume k i)
  with assms show ?thesis
    using running_resume [of "tasks s ! k" i "remove_task k s" c]
    by (auto split: if_splits simp del: resume.simps)
next
  case (Data k is_stderr chunk)
  with assms show ?thesis
    by (auto simp: on_data_def split: if_splits task.splits option.splits)
qed

lemma outcome_at_simps [simp]:
  "outcome_at (suspend t s) = outcome_at s" "outcome_at (emit e s) = outcome_at s"
  "outcome_at (reply r s) = outcome_at s" "outcome_at (writeFile m s) = outcome_at s"
  "outcome_at (remove_task k s) = outcome_at s"
  "outcome_at (s\<lparr>processing := p\<rparr>) = outcome_at s"
  "outcome_at (s\<lparr>currentRun := cr\<rparr>) = outcome_at s"
  "outcome_at (s\<lparr>queue := q\<rparr>) = outcome_at s"
  by (simp_all add: outcome_at_def fun_eq_iff)

lemma outcome_update_same:
  assumes "\<And>m. results (f m) = results m \<and> artifacts (f m) = artifacts m"
  shows "outcome_at (update_metadata a f s) c = outcome_at s c"
  using assms by (cases "heap s a") (simp_all add: outcome_at_def update_metadata_def)

lemma outcome_update_other:
  "c \<noteq> a \<Longrightarrow> outcome_at (update_metadata a f s) c = outcome_at s c"
  by (cases "heap s a") (simp_all add: outcome_at_def update_metadata_def)

lemma outcome_processQueue_catch:
  "outcome_at (processQueue_catch a i s) c = outcome_at s c"
  by (simp add: processQueue_catch_def outcome_update_same split: option.splits)

lemma outcome_loop: "outcome_at (loop i s) c = outcome_at s c"
  by (cases "queue s")
    (simp_all add: loop_def executeRun_def outcome_update_same split: option.splits)

lemma outcome_processQueue: "outcome_at (processQueue i s) c = outcome_at s c"
  by (simp add: processQueue_def outcome_loop)

lemma outcome_next_iteration: "outcome_at (next_iteration i s) c = outcome_at s c"
  by (simp add: next_iteration_def outcome_loop)

lemma outcome_settle:
  "c \<noteq> a \<Longrightarrow> outcome_at (executeRun_settle a t0 i s) c = outcome_at s c"
  by (simp add: executeRun_settle_def Let_def outcome_update_other
      split: option.splits child_result.splits)

lemma outcome_createRun:
  "c \<noteq> next_addr s \<Longrightarrow> outcome_at (createRun opts i s) c = outcome_at s c"
  by (simp add: createRun_def Let_def outcome_at_def)

lemma outcome_resume:
  assumes "\<forall>t0. t \<noteq> AwaitChild c t0"
  shows "outcome_at (resume t i s) c = outcome_at s c"
proof (cases t)
  case (AwaitMkdir site a)
  then show ?thesis
    by (cases site) (simp_all add: outcome_processQueue_catch split: option.splits)
next
  case (AwaitWrite site a ok)
  then show ?thesis
    by (cases site)
      (simp_all add: outcome_processQueue_catch outcome_processQueue outcome_next_iteration
        executeRun_spawn_def executeRun_complete_def split: option.splits)
next
  case (AwaitChild a t0)
  with assms have "c \<noteq> a" by auto
  with AwaitChild show ?thesis by (simp add: outcome_settle)
qed

lemma outcome_step:
  "outcome_at (step s e) c = outcome_at s c \<or> c = next_addr s
   \<or> (\<exists>t0. AwaitChild c t0 \<in> set (tasks s))"
proof (cases e)
  case (POST body i)
  then show ?thesis
    by (cases "c = next_addr s")
      (simp_all add: post_runs_def outcome_createRun split: sum.splits)
next
  case (Data k is_stderr chunk)
  then show ?thesis by (simp add: on_data_def split: task.splits option.splits)
next
  case (Resume k i)
  show ?thesis
  proof (cases "k < length (tasks s) \<and> (\<exists>t0. tasks s ! k = AwaitChild c t0)")
    case True
    then have "\<exists>t0. AwaitChild c t0 \<in> set (tasks s)" by (metis nth_mem)
    then show ?thesis by simp
  next
    case False
    then have "outcome_at (step s e) c = outcome_at s c"
      using Resume outcome_resume [of "tasks s ! k" c i "remove_task k s"]
      by (auto simp del: resume.simps)
    then show ?thesis by simp
  qed
qed


section \<open>After the end of a run\<close>

lemma frame_old:
  assumes "frame s s'" "heap s a = Some r"
  shows "\<exists>r'. heap s' a = Some r' \<and> run_id r' = run_id r
           \<and> assigned (run_options r) (metadata r) (metadata r')"
proof -
  from assms(1) have "\<forall>a r. heap s a = Some r \<longrightarrow>
          (\<exists>r'. heap s' a = Some r' \<and> run_id r' = run_id r
                \<and> run_options r' = run_options r
                \<and> assigned (run_options r) (metadata r) (metadata r'))"
    unfolding frame_def by (rule conjunct1)
  with assms(2) show ?thesis by blast
qed

lemma frame_new:
  assumes "frame s s'" "heap s a = None" "heap s' a = Some r'"
  shows "\<exists>opts i. metadata r' = new_metadata opts i"
proof -
  from assms(1) have "\<forall>a r'. heap s a = None \<longrightarrow> heap s' a = Some r' \<longrightarrow>
            (\<exists>opts i. r' = \<lparr>run_id = randomUUID i, run_options = opts,
                             metadata = new_metadata opts i\<rparr>)"
    unfolding frame_def by (elim conjE)
  with assms(2,3) obtain opts i where
    "r' = \<lparr>run_id = randomUUID i, run_options = opts, metadata = new_metadata opts i\<rparr>"
    by blast
  then have "metadata r' = new_metadata opts i" by simp
  then show ?thesis by blast
qed

lemma frame_files:
  assumes "frame s s'" "files s' f = Some x"
  shows "files s f = Some x \<or> (\<exists>a r. heap s a = Some r \<and> x = Json (metadata r))"
proof -
  from assms(1) have "\<forall>f x. files s' f = Some x \<longrightarrow>
            files s f = Some x \<or> (\<exists>a r. heap s a = Some r \<and> x = Json (metadata r))"
    unfolding frame_def by (elim conjE)
  with assms(2) show ?thesis by blast
qed

lemma assigned_completed:
  assumes "assigned opts m m'" "status m' = Completed"
  shows "status m = Completed \<or> artifacts m' \<noteq> no_artifacts"
  using assms(1) unfolding assigned_def
proof (elim disjE exE)
  fix startTime i
  assume "m' = settled_metadata opts startTime i m"
  with assms(2) show ?thesis
    by (cases "child i") (simp_all add: settled_metadata_def no_artifacts_def)
qed (use assms(2) in auto)

lemma assigned_failure:
  assumes "assigned opts m m'" "artifacts m = no_artifacts"
  shows "failure_agree m'"
  using assms(1) unfolding assigned_def
proof (elim disjE exE)
  fix startTime i
  assume "m' = settled_metadata opts startTime i m"
  with assms(2) show ?thesis
    by (cases "child i") (simp_all add: settled_metadata_def failure_agree_def)
qed (use assms(2) in \<open>auto simp: failure_agree_def\<close>)

lemma terminal_step:
  assumes "inv s" "life_inv s" "heap s c = Some r"
    "status (metadata r) = Completed \<or> status (metadata r) = Failed"
  shows "\<exists>r'. heap (step s e) c = Some r' \<and> run_id r' = run_id r
           \<and> (status (metadata r') = Completed \<or> status (metadata r') = Failed)"
proof -
  have fresh: "heap s (next_addr s) = None"
    using inv_base [OF assms(1)] unfolding base_inv_def by (metis less_irrefl)
  from frame_old [OF frame_step [OF fresh, of e] assms(3)]
  obtain r' where r': "heap (step s e) c = Some r'" "run_id r' = run_id r"
    by blast
  have "\<not> running_at (step s e) c"
  proof
    assume "running_at (step s e) c"
    then have "running_at s c \<or> c \<in> set (queue s)" by (rule running_step)
    then show False
      using assms(2,3,4) unfolding life_inv_def running_at_def by auto
  qed
  then have 1: "status (metadata r') \<noteq> Running"
    using r'(1) by (simp add: running_at_def)
  have "c \<noteq> next_addr s" using fresh assms(3) by auto
  moreover have "c \<notin> set (queue s)"
  proof
    assume "c \<in> set (queue s)"
    then obtain q where "heap s c = Some q" "status (metadata q) = Queued"
      using assms(2) unfolding life_inv_def by blast
    with assms(3,4) show False by auto
  qed
  ultimately have "c \<notin> set (queue (step s e))"
    using queue_step [of s e] by auto
  moreover have "base_inv (step s e)" using inv_step [OF assms(1)] by (rule inv_base)
  ultimately have 2: "status (metadata r') \<noteq> Queued"
    using r'(1) unfolding base_inv_def by blast
  from 1 2 have "status (metadata r') = Completed \<or> status (metadata r') = Failed"
    using status_cases [of "status (metadata r')"] by auto
  with r' show ?thesis by blast
qed

lemma terminal_run:
  assumes "heap (run evs) c = Some r"
    "status (metadata r) = Completed \<or> status (metadata r) = Failed"
  shows "\<exists>r'. heap (run (evs @ later)) c = Some r' \<and> run_id r' = run_id r
           \<and> (status (metadata r') = Completed \<or> status (metadata r') = Failed)"
proof (induction later rule: rev_induct)
  case Nil
  with assms show ?case by simp
next
  case (snoc e later)
  then obtain r' where r': "heap (run (evs @ later)) c = Some r'" "run_id r' = run_id r"
    "status (metadata r') = Completed \<or> status (metadata r') = Failed" by blast
  have "run (evs @ later @ [e]) = step (run (evs @ later)) e"
    using run_snoc [of "evs @ later" e] by simp
  with terminal_step [OF inv_run life_run r'(1) r'(3), of e] r'(2)
  show ?case by auto
qed

lemma failed_empty_step:
  assumes "inv s" "life_inv s" "phase_inv s" "heap s c = Some r"
    "status (metadata r) = Failed" "artifacts (metadata r) = no_artifacts"
  shows "\<exists>r'. heap (step s e) c = Some r' \<and> status (metadata r') = Failed
           \<and> artifacts (metadata r') = no_artifacts"
proof -
  have fresh: "heap s (next_addr s) = None"
    using inv_base [OF assms(1)] unfolding base_inv_def by (metis less_irrefl)
  from terminal_step [OF assms(1,2,4), of e] assms(5)
  obtain r' where r': "heap (step s e) c = Some r'"
    "status (metadata r') = Completed \<or> status (metadata r') = Failed" by auto
  have "c \<noteq> next_addr s" using fresh assms(4) by auto
  moreover have "AwaitChild c t0 \<notin> set (tasks s)" for t0
  proof
    assume "AwaitChild c t0 \<in> set (tasks s)"
    then have "running_at s c" using assms(3) unfolding phase_inv_def by fastforce
    with assms(4,5) show False by (simp add: running_at_def)
  qed
  ultimately have "outcome_at (step s e) c = outcome_at s c"
    using outcome_step [of s e c] by auto
  then have a: "artifacts (metadata r') = no_artifacts"
    using r'(1) assms(4,6) by (simp add: outcome_at_def)
  from frame_old [OF frame_step [OF fresh, of e] assms(4)] r'(1)
  have "assigned (run_options r) (metadata r) (metadata r')"
    by auto
  then have "status (metadata r') \<noteq> Completed"
    using assigned_completed [of "run_options r" "metadata r" "metadata r'"] assms(5) a
    by auto
  with r' a show ?thesis by auto
qed

lemma failed_empty_run:
  assumes "heap (run evs) c = Some r"
    "status (metadata r) = Failed" "artifacts (metadata r) = no_artifacts"
  shows "\<exists>r'. heap (run (evs @ later)) c = Some r' \<and> status (metadata r') = Failed
           \<and> artifacts (metadata r') = no_artifacts"
proof (induction later rule: rev_induct)
  case Nil
  with assms show ?case by simp
next
  case (snoc e later)
  then obtain r' where r': "heap (run (evs @ later)) c = Some r'"
    "status (metadata r') = Failed" "artifacts (metadata r') = no_artifacts" by blast
  have "run (evs @ later @ [e]) = step (run (evs @ later)) e"
    using run_snoc [of "evs @ later" e] by simp
  with failed_empty_step [OF inv_run life_run phase_run r', of e]
  show ?case by auto
qed

lemma awaited_child_running:
  assumes "k < length (tasks (run evs))" "tasks (run evs) ! k = AwaitChild a t0"
  shows "\<exists>r. heap (run evs) a = Some r \<and> status (metadata r) = Running
           \<and> artifacts (metadata r) = no_artifacts \<and> results (metadata r) = None"
proof -
  have "AwaitChild a t0 \<in> set (tasks (run evs))" using assms by (metis nth_mem)
  then have "running_at (run evs) a"
    using phase_run [of evs] unfolding phase_inv_def by fastforce
  then obtain r where r: "heap (run evs) a = Some r" "status (metadata r) = Running"
    by (auto simp: running_at_def)
  then have "artifacts (metadata r) = no_artifacts \<and> results (metadata r) = None"
    using life_run [of evs] unfolding life_inv_def by blast
  with r show ?thesis by simp
qed

lemma rejected_step:
  assumes "k < length (tasks s)" "tasks s ! k = AwaitChild a t0"
    "heap s a = Some r" "child i = Rejected e"
  shows "heap (step s (Resume k i)) a
           = Some (r\<lparr>metadata := (metadata r)
               \<lparr>status := Failed,
                timestamps := (timestamps (metadata r))\<lparr>completed := Some (new_Date i)\<rparr>,
                results := Some \<lparr>exitCode = exitCode_or_1 e,
                                  durationMs = Date_now i - t0\<rparr>\<rparr>\<rparr>)"
    and "emitted_log (step s (Resume k i))
           = emitted_log s @ [run_error (run_id r) (message_or_unknown e)]"
proof -
  have "step s (Resume k i) = executeRun_settle a t0 i (remove_task k s)"
    using assms(1,2) by simp
  then have s1: "step s (Resume k i) = suspend (AwaitMkdir SaveFinal a)
             (emit (run_error (run_id r) (message_or_unknown e))
               (update_metadata a
                  (\<lambda>m. m\<lparr>status := Failed,
                          timestamps := (timestamps m)\<lparr>completed := Some (new_Date i)\<rparr>,
                          results := Some \<lparr>exitCode = exitCode_or_1 e,
                                            durationMs = Date_now i - t0\<rparr>\<rparr>)
                  (remove_task k s)))"
    using settle_rejected [of "remove_task k s" a r i e t0] assms(3,4) by simp
  show "heap (step s (Resume k i)) a
           = Some (r\<lparr>metadata := (metadata r)
               \<lparr>status := Failed,
                timestamps := (timestamps (metadata r))\<lparr>completed := Some (new_Date i)\<rparr>,
                results := Some \<lparr>exitCode = exitCode_or_1 e,
                                  durationMs = Date_now i - t0\<rparr>\<rparr>\<rparr>)"
    unfolding s1 using assms(3) by simp
  show "emitted_log (step s (Resume k i))
           = emitted_log s @ [run_error (run_id r) (message_or_unknown e)]"
    unfolding s1 by simp
qed

lemma exitCode_or_1_nonzero: "exitCode_or_1 e \<noteq> 0"
  by (simp add: exitCode_or_1_def split: option.splits)

lemma failure_step:
  assumes "inv s" "life_inv s" "phase_inv s" "failure_inv s"
  shows "failure_inv (step s e)"
proof -
  have fresh: "heap s (next_addr s) = None"
    using inv_base [OF assms(1)] unfolding base_inv_def by (metis less_irrefl)
  note fr = frame_step [OF fresh, of e]
  have heap: "failure_agree (metadata r')" if r': "heap (step s e) c = Some r'" for c r'
  proof (cases "heap s c")
    case None
    with frame_new [OF fr _ r'] obtain opts i where "metadata r' = new_metadata opts i"
      by blast
    then show ?thesis by (simp add: failure_agree_def new_metadata_def)
  next
    case (Some r)
    then have agree: "failure_agree (metadata r)"
      using assms(4) unfolding failure_inv_def by blast
    have ne: "c \<noteq> next_addr s" using fresh Some by auto
    show ?thesis
    proof (cases "outcome_at (step s e) c = outcome_at s c")
      case True
      then show ?thesis
        using agree r' Some by (simp add: outcome_at_def failure_agree_def)
    next
      case False
      then obtain t0 where "AwaitChild c t0 \<in> set (tasks s)"
        using outcome_step [of s e c] ne by auto
      then have "running_at s c" using assms(3) unfolding phase_inv_def by fastforce
      then have e: "artifacts (metadata r) = no_artifacts"
        using Some assms(2) unfolding life_inv_def running_at_def by auto
      from frame_old [OF fr Some] r'
      have "assigned (run_options r) (metadata r) (metadata r')" by auto
      then show ?thesis using e by (rule assigned_failure)
    qed
  qed
  have "failure_agree m" if "files (step s e) f = Some (Json m)" for f m
    using frame_files [OF fr that] assms(4) unfolding failure_inv_def by blast
  with heap show ?thesis unfolding failure_inv_def by blast
qed

lemma failure_run: "failure_inv (run evs)"
proof (induction evs rule: rev_induct)
  case Nil
  show ?case by (simp add: run_def init_def failure_inv_def)
next
  case (snoc e evs)
  then show ?case
    unfolding run_snoc by (rule failure_step [OF inv_run life_run phase_run])
qed

lemma rejected_run:
  assumes "k < length (tasks (run evs))" "tasks (run evs) ! k = AwaitChild a t0"
    "child i = Rejected e"
  shows "\<exists>r'. heap (run (evs @ Resume k i # later)) a = Some r'
           \<and> status (metadata r') = Failed \<and> artifacts (metadata r') = no_artifacts"
proof -
  from awaited_child_running [OF assms(1,2)]
  obtain r where r: "heap (run evs) a = Some r" "artifacts (metadata r) = no_artifacts"
    by blast
  let ?r = "r\<lparr>metadata := (metadata r)
               \<lparr>status := Failed,
                timestamps := (timestamps (metadata r))\<lparr>completed := Some (new_Date i)\<rparr>,
                results := Some \<lparr>exitCode = exitCode_or_1 e,
                                  durationMs = Date_now i - t0\<rparr>\<rparr>\<rparr>"
  have "heap (run (evs @ [Resume k i])) a = Some ?r"
    unfolding run_snoc using assms(1,2) r(1) assms(3) by (rule rejected_step(1))
  moreover have "status (metadata ?r) = Failed" "artifacts (metadata ?r) = no_artifacts"
    using r(2) by simp_all
  ultimately have "\<exists>r'. heap (run ((evs @ [Resume k i]) @ later)) a = Some r'
           \<and> status (metadata r') = Failed \<and> artifacts (metadata r') = no_artifacts"
    by (rule failed_empty_run)
  then show ?thesis by simp
qed

lemma rejected_stored:
  assumes "k < length (tasks (run evs))" "tasks (run evs) ! k = AwaitChild a t0"
    "child i = Rejected e" "mkdir_ok j" "writeFile_ok j"
  shows "\<exists>r m. heap (run evs) a = Some r
           \<and> files (step (step (run evs) (Resume k i))
                      (Resume (length (tasks (run evs)) - 1) j))
               (runs_file (id' (metadata r))) = Some (Json m)
           \<and> status m = Failed \<and> artifacts m = no_artifacts"
proof -
  from awaited_child_running [OF assms(1,2)]
  obtain r where r: "heap (run evs) a = Some r" "artifacts (metadata r) = no_artifacts"
    by blast
  let ?m = "(metadata r)
               \<lparr>status := Failed,
                timestamps := (timestamps (metadata r))\<lparr>completed := Some (new_Date i)\<rparr>,
                results := Some \<lparr>exitCode = exitCode_or_1 e,
                                  durationMs = Date_now i - t0\<rparr>\<rparr>"
  have "files (step (step (run evs) (Resume k i))
                      (Resume (length (tasks (run evs)) - 1) j))
               (runs_file (id' (metadata r))) = Some (Json ?m)"
    using assms(1,2) r(1) assms(3,4,5) by (rule stored_after_rejection)
  moreover have "status ?m = Failed" "artifacts ?m = no_artifacts" using r(2) by simp_all
  ultimately show ?thesis using r(1) by blast
qed

section \<open>Artifact paths\<close>

lemma settled_keeps:
  "environment (settled_metadata opts t0 i m) = environment m"
  "id' (settled_metadata opts t0 i m) = id' m"
  "options (settled_metadata opts t0 i m) = options m"
  by (cases "child i"; simp add: settled_metadata_def)+

lemma assigned_keeps:
  assumes "assigned opts m m'"
  shows "environment m' = environment m \<and> id' m' = id' m \<and> options m' = options m"
  using assms unfolding assigned_def
  by (elim disjE exE) (simp_all add: settled_keeps)

lemma settled_artifacts:
  assumes "trace (options m) = trace opts" "profile (options m) = profile opts"
    "artifacts_agree m"
  shows "artifacts_agree (settled_metadata opts t0 i m)"
  using assms
  by (cases "child i") (simp_all add: settled_metadata_def artifacts_agree_def)

lemma assigned_artifacts:
  assumes "assigned opts m m'" "artifacts_agree m"
    "trace (options m) = trace opts" "profile (options m) = profile opts"
  shows "artifacts_agree m'"
  using assms(1) unfolding assigned_def
proof (elim disjE exE)
  fix t0 i assume "m' = settled_metadata opts t0 i m"
  then show ?thesis using settled_artifacts [OF assms(3,4,2)] by simp
qed (use assms(2) in \<open>simp_all add: artifacts_agree_def\<close>)

lemma artifacts_new: "artifacts_agree (new_metadata opts i)"
  by (simp add: artifacts_agree_def new_metadata_def)

lemma artifacts_frame:
  assumes "artifacts_inv s" "frame s s'"
  shows "artifacts_inv s'"
proof -
  have objects: "artifacts_agree (metadata r')
          \<and> trace (options (metadata r')) = trace (run_options r')
          \<and> profile (options (metadata r')) = profile (run_options r')"
    if "heap s' a = Some r'" for a r'
  proof (cases "heap s a")
    case None
    with that assms(2) obtain opts i
      where "r' = \<lparr>run_id = randomUUID i, run_options = opts, metadata = new_metadata opts i\<rparr>"
      unfolding frame_def by blast
    then show ?thesis by (simp add: artifacts_new) (simp add: new_metadata_def)
  next
    case (Some r)
    with assms(2) that have r': "run_options r' = run_options r"
      "assigned (run_options r) (metadata r) (metadata r')"
      unfolding frame_def by fastforce+
    from assms(1) Some have r: "artifacts_agree (metadata r)"
      "trace (options (metadata r)) = trace (run_options r)"
      "profile (options (metadata r)) = profile (run_options r)"
      unfolding artifacts_inv_def by blast+
    show ?thesis
      using assigned_artifacts [OF r'(2) r] assigned_keeps [OF r'(2)] r r'(1) by simp
  qed
  have stored: "artifacts_agree m" if "files s' f = Some (Json m)" for f m
  proof -
    from that assms(2)
    have "files s f = Some (Json m) \<or> (\<exists>a r. heap s a = Some r \<and> m = metadata r)"
      unfolding frame_def by blast
    with assms(1) show ?thesis unfolding artifacts_inv_def by blast
  qed
  from objects stored show ?thesis unfolding artifacts_inv_def by blast
qed

lemma artifacts_inv_run: "artifacts_inv (run evs)"
proof (induction evs rule: rev_induct)
  case Nil
  show ?case by (simp add: run_def init_def artifacts_inv_def)
next
  case (snoc e evs)
  then show ?case
    unfolding run_snoc by (rule artifacts_frame [OF _ frame_run])
qed

text \<open>
  C7, as the code has it. On every stored record, in every state the service reaches,
  the path of the trace log is present only if the options enabled \<^verbatim>\<open>trace\<close> and the
  path of the profile only if they enabled \<^verbatim>\<open>profile\<close>; on a record with status
  \<^verbatim>\<open>completed\<close> each path is present exactly if its option is enabled. The same holds
  of the run objects in memory. The settlement of a run whose child failed sets the
  status \<^verbatim>\<open>failed\<close> and leaves the artifacts as they were, and they are created empty:
  a failed run gets no path from its options. So, in every state the service reaches:
  when the child of a run is rejected, the run has the status \<^verbatim>\<open>failed\<close> and the empty
  artifacts after that step and after any events that follow it, and the record the
  next successful save stores is \<^verbatim>\<open>failed\<close> with the empty artifacts; and every run
  object and every stored record whose results carry an exit code other than 0 has the
  empty artifacts, the exit code stored for a rejected child being never 0. (A record
  that is \<^verbatim>\<open>failed\<close> and has paths exists: it is left by a completed run whose final
  save failed, and its exit code is 0.)
\<close>

theorem artifacts_follow_options:
  "(files (run evs) f = Some (Json m) \<longrightarrow>
      (stderr (artifacts m) \<noteq> None \<longrightarrow> trace (options m))
      \<and> (cpuProfile (artifacts m) \<noteq> None \<longrightarrow> profile (options m))
      \<and> (status m = Completed \<longrightarrow>
            (stderr (artifacts m) \<noteq> None) = trace (options m)
            \<and> (cpuProfile (artifacts m) \<noteq> None) = profile (options m)))
   \<and> (heap (run evs) a = Some r \<longrightarrow> artifacts_agree (metadata r))
   \<and> (child i = Rejected e \<longrightarrow>
        status (settled_metadata opts startTime i m') = Failed
        \<and> artifacts (settled_metadata opts startTime i m') = artifacts m')
   \<and> artifacts (new_metadata opts i) = \<lparr>stdout = None, stderr = None, cpuProfile = None\<rparr>
   \<and> (k < length (tasks (run evs)) \<and> tasks (run evs) ! k = AwaitChild c startTime
        \<and> child i = Rejected e \<longrightarrow>
        (\<exists>r'. heap (run (evs @ Resume k i # later)) c = Some r'
              \<and> status (metadata r') = Failed
              \<and> artifacts (metadata r')
                  = \<lparr>stdout = None, stderr = None, cpuProfile = None\<rparr>)
        \<and> (mkdir_ok j \<and> writeFile_ok j \<longrightarrow>
             (\<exists>r0 m0. heap (run evs) c = Some r0
                \<and> files (step (step (run evs) (Resume k i))
                           (Resume (length (tasks (run evs)) - 1) j))
                    (runs_file (id' (metadata r0))) = Some (Json m0)
                \<and> status m0 = Failed
                \<and> artifacts m0 = \<lparr>stdout = None, stderr = None, cpuProfile = None\<rparr>)))
   \<and> (heap (run evs) a = Some r \<and> results (metadata r) = Some x \<and> exitCode x \<noteq> 0 \<longrightarrow>
        artifacts (metadata r) = \<lparr>stdout = None, stderr = None, cpuProfile = None\<rparr>)
   \<and> (files (run evs) f = Some (Json m) \<and> results m = Some x \<and> exitCode x \<noteq> 0 \<longrightarrow>
        artifacts m = \<lparr>stdout = None, stderr = None, cpuProfile = None\<rparr>)
   \<and> exitCode_or_1 e \<noteq> 0"
proof -
  have "artifacts_inv (run evs)" by (rule artifacts_inv_run)
  then have "files (run evs) f = Some (Json m) \<longrightarrow> artifacts_agree m"
    and 2: "heap (run evs) a = Some r \<longrightarrow> artifacts_agree (metadata r)"
    unfolding artifacts_inv_def by blast+
  then have 1: "files (run evs) f = Some (Json m) \<longrightarrow>
      (stderr (artifacts m) \<noteq> None \<longrightarrow> trace (options m))
      \<and> (cpuProfile (artifacts m) \<noteq> None \<longrightarrow> profile (options m))
      \<and> (status m = Completed \<longrightarrow>
            (stderr (artifacts m) \<noteq> None) = trace (options m)
            \<and> (cpuProfile (artifacts m) \<noteq> None) = profile (options m))"
    unfolding artifacts_agree_def by blast
  have 3: "child i = Rejected e \<longrightarrow>
        status (settled_metadata opts startTime i m') = Failed
        \<and> artifacts (settled_metadata opts startTime i m') = artifacts m'"
    by (simp add: settled_metadata_def)
  have 4: "artifacts (new_metadata opts i)
                   = \<lparr>stdout = None, stderr = None, cpuProfile = None\<rparr>"
    by (simp add: new_metadata_def)
  have 5: "k < length (tasks (run evs)) \<and> tasks (run evs) ! k = AwaitChild c startTime
        \<and> child i = Rejected e \<longrightarrow>
        (\<exists>r'. heap (run (evs @ Resume k i # later)) c = Some r'
              \<and> status (metadata r') = Failed
              \<and> artifacts (metadata r')
                  = \<lparr>stdout = None, stderr = None, cpuProfile = None\<rparr>)
        \<and> (mkdir_ok j \<and> writeFile_ok j \<longrightarrow>
             (\<exists>r0 m0. heap (run evs) c = Some r0
                \<and> files (step (step (run evs) (Resume k i))
                           (Resume (length (tasks (run evs)) - 1) j))
                    (runs_file (id' (metadata r0))) = Some (Json m0)
                \<and> status m0 = Failed
                \<and> artifacts m0 = \<lparr>stdout = None, stderr = None, cpuProfile = None\<rparr>))"
    using rejected_run [of k evs c startTime i e later]
      rejected_stored [of k evs c startTime i e j]
    unfolding no_artifacts_def by blast
  have "failure_inv (run evs)" by (rule failure_run)
  then have 6: "heap (run evs) a = Some r \<and> results (metadata r) = Some x \<and> exitCode x \<noteq> 0
      \<longrightarrow> artifacts (metadata r) = \<lparr>stdout = None, stderr = None, cpuProfile = None\<rparr>"
    and 7: "files (run evs) f = Some (Json m) \<and> results m = Some x \<and> exitCode x \<noteq> 0 \<longrightarrow>
        artifacts m = \<lparr>stdout = None, stderr = None, cpuProfile = None\<rparr>"
    unfolding failure_inv_def failure_agree_def no_artifacts_def by blast+
  have 8: "exitCode_or_1 e \<noteq> 0" by (rule exitCode_or_1_nonzero)
  from 1 2 3 4 5 6 7 8 show ?thesis by (intro conjI)
qed

lemma finished_resolved:
  "finished_record Resolved =
     sample_running\<lparr>status := Completed,
       timestamps := \<lparr>queued = 1000, started = Some 1000, completed = Some 2000\<rparr>,
       results := Some \<lparr>exitCode = 0, durationMs = 1000\<rparr>,
       artifacts := \<lparr>stdout = Some ''01-hidden-classes/deopt/latest/stdout.log'',
                     stderr = Some ''01-hidden-classes/deopt/latest/trace.log'',
                     cpuProfile = None\<rparr>\<rparr>"
  by (simp add: sample_defs settled_metadata_def)

lemma finished_rejected:
  "finished_record (Rejected e) =
     sample_running\<lparr>status := Failed,
       timestamps := \<lparr>queued = 1000, started = Some 1000, completed = Some 2000\<rparr>,
       results := Some \<lparr>exitCode = exitCode_or_1 e, durationMs = 1000\<rparr>\<rparr>"
  by (simp add: sample_defs settled_metadata_def)

theorem artifacts_follow_options_witness:
  "files (run (finished Resolved)) ''run-1.json'' = Some (Json (finished_record Resolved))
   \<and> status (finished_record Resolved) = Completed
   \<and> trace (options (finished_record Resolved))
   \<and> stderr (artifacts (finished_record Resolved))
       = Some ''01-hidden-classes/deopt/latest/trace.log''
   \<and> \<not> profile (options (finished_record Resolved))
   \<and> cpuProfile (artifacts (finished_record Resolved)) = None
   \<and> artifacts (settled_metadata sample_options 1000
                  (later_inputs\<lparr>child := Rejected spawn_error\<rparr>) sample_running)
       = artifacts sample_running
   \<and> tasks (run spawned) ! 0 = AwaitChild 0 1000
   \<and> trace sample_options
   \<and> (\<exists>r'. heap (run (spawned @ Resume 0 (later_inputs\<lparr>child := Rejected spawn_error\<rparr>)
                               # [Resume 0 later_inputs, Resume 0 later_inputs,
                                  POST sample_body later_inputs])) 0 = Some r'
          \<and> status (metadata r') = Failed
          \<and> artifacts (metadata r') = \<lparr>stdout = None, stderr = None, cpuProfile = None\<rparr>)
   \<and> (\<exists>m0. files (step (step (run spawned)
                              (Resume 0 (later_inputs\<lparr>child := Rejected spawn_error\<rparr>)))
                        (Resume 0 later_inputs)) ''run-1.json'' = Some (Json m0)
          \<and> status m0 = Failed
          \<and> artifacts m0 = \<lparr>stdout = None, stderr = None, cpuProfile = None\<rparr>)
   \<and> results (finished_record (Rejected exit_1_error))
       = Some \<lparr>exitCode = 1, durationMs = 1000\<rparr>
   \<and> artifacts (finished_record (Rejected exit_1_error))
       = \<lparr>stdout = None, stderr = None, cpuProfile = None\<rparr>"
proof -
  have t: "tasks (run spawned) = [AwaitChild 0 1000]"
    and h: "heap (run spawned) 0
              = Some \<lparr>run_id = ''run-1'', run_options = sample_options,
                      metadata = sample_running\<rparr>"
    by (simp_all add: run_spawned init_def)
  have old: "files (run (finished Resolved)) ''run-1.json''
       = Some (Json (finished_record Resolved))
   \<and> status (finished_record Resolved) = Completed
   \<and> trace (options (finished_record Resolved))
   \<and> stderr (artifacts (finished_record Resolved))
       = Some ''01-hidden-classes/deopt/latest/trace.log''
   \<and> \<not> profile (options (finished_record Resolved))
   \<and> cpuProfile (artifacts (finished_record Resolved)) = None
   \<and> artifacts (settled_metadata sample_options 1000
                  (later_inputs\<lparr>child := Rejected spawn_error\<rparr>) sample_running)
       = artifacts sample_running"
    using artifacts_follow_options
      [of "finished Resolved" "''run-1.json''" "finished_record Resolved" 0
        "\<lparr>run_id = ''run-1'', run_options = sample_options,
          metadata = finished_record Resolved\<rparr>"
        "later_inputs\<lparr>child := Rejected spawn_error\<rparr>" spawn_error sample_options 1000
        sample_running]
    by (simp add: run_finished finished_resolved sample_running_def sample_queued_def
        new_metadata_def sample_options_def init_def)
  have c: "child (later_inputs\<lparr>child := Rejected spawn_error\<rparr>) = Rejected spawn_error"
    and j: "mkdir_ok later_inputs" "writeFile_ok later_inputs"
    by (simp_all add: later_inputs_def sample_inputs_def)
  have rejected: "(\<exists>r'. heap (run (spawned @ Resume 0 (later_inputs\<lparr>child := Rejected spawn_error\<rparr>)
                               # [Resume 0 later_inputs, Resume 0 later_inputs,
                                  POST sample_body later_inputs])) 0 = Some r'
          \<and> status (metadata r') = Failed
          \<and> artifacts (metadata r') = \<lparr>stdout = None, stderr = None, cpuProfile = None\<rparr>)
   \<and> (\<exists>m0. files (step (step (run spawned)
                              (Resume 0 (later_inputs\<lparr>child := Rejected spawn_error\<rparr>)))
                        (Resume 0 later_inputs)) ''run-1.json'' = Some (Json m0)
          \<and> status m0 = Failed
          \<and> artifacts m0 = \<lparr>stdout = None, stderr = None, cpuProfile = None\<rparr>)"
    using artifacts_follow_options
      [of spawned _ _ _ _ "later_inputs\<lparr>child := Rejected spawn_error\<rparr>" spawn_error
        _ 1000 _ 0 0
        "[Resume 0 later_inputs, Resume 0 later_inputs, POST sample_body later_inputs]"
        later_inputs]
      t h c j
    by (simp add: sample_running_def sample_queued_def new_metadata_def runs_file_def
        sample_inputs_def)
  have failed: "results (finished_record (Rejected exit_1_error))
       = Some \<lparr>exitCode = 1, durationMs = 1000\<rparr>
   \<and> artifacts (finished_record (Rejected exit_1_error))
       = \<lparr>stdout = None, stderr = None, cpuProfile = None\<rparr>"
    using artifacts_follow_options
      [of "finished (Rejected exit_1_error)" "''run-1.json''"
        "finished_record (Rejected exit_1_error)" 0
        "\<lparr>run_id = ''run-1'', run_options = sample_options,
          metadata = finished_record (Rejected exit_1_error)\<rparr>"
        _ _ _ _ _ _ _ _ _ "\<lparr>exitCode = 1, durationMs = 1000\<rparr>"]
    by (simp add: run_finished finished_rejected init_def exit_1_error_def exitCode_or_1_def)
  have "trace sample_options" by (simp add: sample_options_def)
  with old rejected failed t show ?thesis by simp
qed

text \<open>The claim as the specification states it fails on a run whose child fails: the
  request enabled \<^verbatim>\<open>trace\<close>, the record is terminal, and it has no path of the trace
  log.\<close>

theorem artifacts_follow_options_counterexample:
  "files (run (finished (Rejected exit_1_error))) ''run-1.json''
     = Some (Json (finished_record (Rejected exit_1_error)))
   \<and> status (finished_record (Rejected exit_1_error)) = Failed
   \<and> trace (options (finished_record (Rejected exit_1_error)))
   \<and> stderr (artifacts (finished_record (Rejected exit_1_error))) = None"
  by (simp add: run_finished finished_rejected sample_running_def sample_queued_def
      new_metadata_def sample_options_def init_def)

section \<open>The environment snapshot\<close>

text \<open>
  C9, as the code has it. The environment of a run is built in \<^verbatim>\<open>createRun\<close> from the
  four \<^verbatim>\<open>process\<close> fields read in the segment of the request, when the run is created
  with status \<^verbatim>\<open>queued\<close>; no step changes the environment of a run object
  afterwards, the step that sets the run to \<^verbatim>\<open>running\<close> included.
\<close>

theorem environment_at_admission:
  "environment (new_metadata opts i)
     = \<lparr>nodeVersion = process_version i, v8Version = process_versions_v8 i,
        platform = process_platform i, arch = process_arch i, gitSha = None\<rparr>
   \<and> (safeParse body = Inr opts \<longrightarrow>
        heap (step (run evs) (POST body i)) (next_addr (run evs))
          = Some \<lparr>run_id = randomUUID i, run_options = opts,
                  metadata = new_metadata opts i\<rparr>
        \<and> status (new_metadata opts i) = Queued)
   \<and> (heap (run evs) a = Some r \<longrightarrow>
        (\<exists>r'. heap (step (run evs) e) a = Some r'
             \<and> environment (metadata r') = environment (metadata r)))"
proof (intro conjI impI)
  show "environment (new_metadata opts i)
     = \<lparr>nodeVersion = process_version i, v8Version = process_versions_v8 i,
        platform = process_platform i, arch = process_arch i, gitSha = None\<rparr>"
    by (simp add: new_metadata_def)
  show "status (new_metadata opts i) = Queued" by (simp add: new_metadata_def)
  show "heap (step (run evs) (POST body i)) (next_addr (run evs))
          = Some \<lparr>run_id = randomUUID i, run_options = opts,
                  metadata = new_metadata opts i\<rparr>"
    if "safeParse body = Inr opts"
    using that by (simp add: post_runs_def createRun_def Let_def)
  show "\<exists>r'. heap (step (run evs) e) a = Some r'
             \<and> environment (metadata r') = environment (metadata r)"
    if "heap (run evs) a = Some r"
  proof -
    from frame_run [of evs e] that obtain r'
      where "heap (step (run evs) e) a = Some r'"
        "assigned (run_options r) (metadata r) (metadata r')"
      unfolding frame_def by blast
    then show ?thesis using assigned_keeps by blast
  qed
qed

theorem environment_at_admission_witness:
  "safeParse sample_body = Inr sample_options
   \<and> heap (run admitted) 0
       = Some \<lparr>run_id = ''run-1'', run_options = sample_options, metadata = sample_queued\<rparr>
   \<and> (\<exists>r'. heap (step (run admitted) (Resume 0 upgraded_inputs)) 0 = Some r'
          \<and> status (metadata r') = Running
          \<and> environment (metadata r') = environment sample_queued)"
proof -
  have h: "heap (run admitted) 0
       = Some \<lparr>run_id = ''run-1'', run_options = sample_options, metadata = sample_queued\<rparr>"
    by (simp add: run_admitted init_def)
  have st: "\<exists>r'. heap (step (run admitted) (Resume 0 upgraded_inputs)) 0 = Some r'
          \<and> status (metadata r') = Running"
    by (simp add: run_admitted init_def processQueue_def loop_def executeRun_def
        update_metadata_def suspend_def reply_def remove_task_def)
  show ?thesis
    using environment_at_admission [of sample_options sample_inputs sample_body admitted 0
        "\<lparr>run_id = ''run-1'', run_options = sample_options, metadata = sample_queued\<rparr>"
        "Resume 0 upgraded_inputs"] h st sample_parse
    by auto
qed

text \<open>The claim as the specification states it (captured when the run becomes
  running, not earlier) fails: the queued run holds the snapshot already, and the
  step that makes it running, on a host that reports another version by then, leaves
  the snapshot as it was.\<close>

theorem environment_at_admission_counterexample:
  "(\<exists>r. heap (run admitted) 0 = Some r \<and> status (metadata r) = Queued
        \<and> nodeVersion (environment (metadata r)) = ''v20.11.0'')
   \<and> process_version upgraded_inputs = ''v22.0.0''
   \<and> (\<exists>r'. heap (step (run admitted) (Resume 0 upgraded_inputs)) 0 = Some r'
          \<and> status (metadata r') = Running
          \<and> nodeVersion (environment (metadata r')) = ''v20.11.0'')"
  by (simp add: run_admitted init_def processQueue_def loop_def executeRun_def
      update_metadata_def suspend_def reply_def remove_task_def upgraded_inputs_def
      sample_queued_def new_metadata_def sample_inputs_def)

section \<open>The listing\<close>

lemma set_insert_by: "set (insert_by cmp x xs) = insert x (set xs)"
  by (induction xs) auto

lemma mset_insert_by: "mset (insert_by cmp x xs) = add_mset x (mset xs)"
  by (induction xs) auto

lemma mset_sort_by: "mset (sort_by cmp xs) = mset xs"
  by (induction xs) (auto simp: mset_insert_by)

lemma sorted_insert_newest:
  "sorted_wrt newer_or_same xs \<Longrightarrow> sorted_wrt newer_or_same (insert_by newest_first x xs)"
proof (induction xs)
  case Nil
  then show ?case by simp
next
  case (Cons y ys)
  show ?case
  proof (cases "newest_first x y \<le> 0")
    case True
    then have "newer_or_same x y" by (simp add: newest_first_def newer_or_same_def)
    moreover have "\<forall>z\<in>set ys. newer_or_same y z" using Cons.prems by simp
    ultimately have "\<forall>z\<in>set (y # ys). newer_or_same x z"
      by (auto simp: newer_or_same_def)
    with True Cons.prems show ?thesis by simp
  next
    case False
    then have "newer_or_same y x" by (simp add: newest_first_def newer_or_same_def)
    with False Cons show ?thesis by (auto simp: set_insert_by)
  qed
qed

lemma sorted_sort_newest: "sorted_wrt newer_or_same (sort_by newest_first xs)"
  by (induction xs) (auto intro: sorted_insert_newest)

lemma count_read_runs:
  "count_list (read_runs fs names) m = length (filter (\<lambda>f. fs f = Some (Json m)) names)"
  by (induction names) (auto split: option.splits stored.splits)

lemma read_runs_skip:
  assumes "\<And>m. fs f \<noteq> Some (Json m)"
  shows "read_runs fs (removeAll f names) = read_runs fs names"
  using assms by (induction names) (auto split: option.splits stored.splits)

text \<open>
  C8. \<^verbatim>\<open>listRuns\<close> returns the records of the \<^verbatim>\<open>.json\<close> files of the directory that
  parse, each as often as it is stored, ordered by the queued timestamp, newest first;
  a file that does not parse, or that cannot be read, changes nothing: the listing is
  the one of the directory without that file.
\<close>

theorem listRuns_newest_first:
  "sorted_wrt (\<lambda>a b. queued (timestamps b) \<le> queued (timestamps a)) (listRuns (Some names) fs)
   \<and> (\<forall>m. count_list (listRuns (Some names) fs) m
            = length (filter (\<lambda>f. endsWith f ''.json'' \<and> fs f = Some (Json m)) names))
   \<and> (fs f = Some Unparsable \<or> fs f = None \<longrightarrow>
        listRuns (Some names) fs = listRuns (Some (removeAll f names)) fs)"
proof -
  let ?js = "filter (\<lambda>f. endsWith f ''.json'') names"
  have a: "sorted_wrt (\<lambda>a b. queued (timestamps b) \<le> queued (timestamps a))
             (listRuns (Some names) fs)"
    using sorted_sort_newest [of "read_runs fs ?js"]
    by (simp add: listRuns_def newer_or_same_def [abs_def])
  have b: "count_list (listRuns (Some names) fs) m
            = length (filter (\<lambda>f. endsWith f ''.json'' \<and> fs f = Some (Json m)) names)" for m
  proof -
    have "count_list (listRuns (Some names) fs) m
            = count (mset (sort_by newest_first (read_runs fs ?js))) m"
      by (simp add: listRuns_def count_mset)
    also have "\<dots> = count_list (read_runs fs ?js) m"
      by (simp add: mset_sort_by count_mset)
    also have "\<dots> = length (filter (\<lambda>f. endsWith f ''.json'' \<and> fs f = Some (Json m)) names)"
      by (simp add: count_read_runs conj_commute)
    finally show ?thesis .
  qed
  have c: "listRuns (Some names) fs = listRuns (Some (removeAll f names)) fs"
    if "fs f = Some Unparsable \<or> fs f = None"
  proof -
    have "filter (\<lambda>f. endsWith f ''.json'') (removeAll f names) = removeAll f ?js"
      by (induction names) auto
    moreover have "read_runs fs (removeAll f ?js) = read_runs fs ?js"
      using that by (intro read_runs_skip) auto
    ultimately show ?thesis by (simp add: listRuns_def)
  qed
  from a b c show ?thesis by blast
qed

theorem listRuns_newest_first_witness:
  "sample_files ''broken.json'' = Some Unparsable
   \<and> listRuns (Some sample_dir) sample_files = [sample_later, sample_queued]
   \<and> listRuns (Some (removeAll ''broken.json'' sample_dir)) sample_files
       = [sample_later, sample_queued]
   \<and> queued (timestamps sample_queued) \<le> queued (timestamps sample_later)"
proof -
  have l: "listRuns (Some sample_dir) sample_files = [sample_later, sample_queued]"
    by (simp add: listRuns_def sample_dir_def sample_files_def endsWith_def newest_first_def
        sample_later_def sample_queued_def new_metadata_def later_inputs_def sample_inputs_def)
  have b: "sample_files ''broken.json'' = Some Unparsable"
    by (simp add: sample_files_def)
  show ?thesis
    using listRuns_newest_first [of sample_dir sample_files "''broken.json''"] l b
    by (simp add: sample_later_def sample_queued_def new_metadata_def later_inputs_def
        sample_inputs_def)
qed

section \<open>A script outside the catalog\<close>

text \<open>
  C5. The validation checks the form of \<^verbatim>\<open>exp\<close> only (1 to 100 word characters or
  hyphens), and \<^verbatim>\<open>createRun\<close> checks nothing: a request for a script that is in no
  catalog is admitted, gets an id and status 201, is stored, and is started.
\<close>

theorem unknown_script_admitted:
  "safeParse unknown_body
     = Inr \<lparr>trace = False, profile = False, warmup = 1000, repeat = 100000,
            exp' = ''no-such-experiment'', variant = ''baseline''\<rparr>
   \<and> responses (run [POST unknown_body sample_inputs, Resume 0 sample_inputs,
                      Resume 0 sample_inputs]) = [Created ''run-1'']
   \<and> (\<exists>m. files (run [POST unknown_body sample_inputs, Resume 0 sample_inputs,
                        Resume 0 sample_inputs]) ''run-1.json'' = Some (Json m)
          \<and> experiment' m = ''no-such-experiment'' \<and> status m = Queued)
   \<and> (\<exists>r. heap (run [POST unknown_body sample_inputs, Resume 0 sample_inputs,
                        Resume 0 sample_inputs]) 0 = Some r
          \<and> status (metadata r) = Running)"
proof -
  have p: "safeParse unknown_body
     = Inr \<lparr>trace = False, profile = False, warmup = 1000, repeat = 100000,
            exp' = ''no-such-experiment'', variant = ''baseline''\<rparr>"
    by (simp add: unknown_body_def schema_defs)
  show ?thesis
    by (simp add: p run_def init_def post_runs_def createRun_def processQueue_def loop_def
        executeRun_def update_metadata_def suspend_def reply_def remove_task_def
        writeFile_def new_metadata_def runs_file_def sample_inputs_def)
qed

section \<open>A child that fails\<close>

text \<open>
  C3, as the code has it. When the child's promise is rejected, by the kill at the
  timeout or otherwise, and the next \<^verbatim>\<open>saveMetadata\<close> succeeds, the stored record is the
  metadata of the run with status \<^verbatim>\<open>failed\<close>, the completion time, and as results the
  exit code of the error (1 when it has none, as after a kill, or is 0) and the
  duration; nothing else is assigned, and the step does not read the flag
  \<^verbatim>\<open>timedOut\<close> of the error: the state after it is the same for either value. The
  step that settles the run emits \<^verbatim>\<open>run:error\<close> for the run with the message of the
  error (\<^verbatim>\<open>Unknown error\<close> when the message is empty) and nothing else, and the stream of
  the run relays it as an \<^verbatim>\<open>error\<close> event: that message is the one place where the
  timeout shows.
\<close>

theorem timeout_stored_as_failure:
  assumes "k < length (tasks s)" and "tasks s ! k = AwaitChild a startTime"
    and "heap s a = Some r" and "child i = Rejected e"
    and "mkdir_ok j" and "writeFile_ok j"
  shows "files (step (step s (Resume k i)) (Resume (length (tasks s) - 1) j))
           (runs_file (id' (metadata r)))
         = Some (Json ((metadata r)
              \<lparr>status := Failed,
               timestamps := (timestamps (metadata r))\<lparr>completed := Some (new_Date i)\<rparr>,
               results := Some \<lparr>exitCode = exitCode_or_1 e,
                                 durationMs = Date_now i - startTime\<rparr>\<rparr>))
       \<and> step s (Resume k (i\<lparr>child := Rejected (e\<lparr>timedOut := b\<rparr>)\<rparr>))
           = step s (Resume k i)
       \<and> emitted_log (step s (Resume k i))
           = emitted_log s
             @ [run_error (run_id r)
                  (if message e = [] then ''Unknown error'' else message e)]
       \<and> listeners (run_id r) (run_error (run_id r) text) = ([error_event text], False)"
proof (intro conjI)
  show "files (step (step s (Resume k i)) (Resume (length (tasks s) - 1) j))
           (runs_file (id' (metadata r)))
         = Some (Json ((metadata r)
              \<lparr>status := Failed,
               timestamps := (timestamps (metadata r))\<lparr>completed := Some (new_Date i)\<rparr>,
               results := Some \<lparr>exitCode = exitCode_or_1 e,
                                 durationMs = Date_now i - startTime\<rparr>\<rparr>))"
    using assms by (rule stored_after_rejection)
  have "executeRun_settle a startTime (i\<lparr>child := Rejected (e\<lparr>timedOut := b\<rparr>)\<rparr>) s'
          = executeRun_settle a startTime i s'" for s'
    using assms(4)
    by (cases "heap s' a")
      (simp_all add: executeRun_settle_def settled_metadata_def exitCode_or_1_def
        message_or_unknown_def)
  then show "step s (Resume k (i\<lparr>child := Rejected (e\<lparr>timedOut := b\<rparr>)\<rparr>))
           = step s (Resume k i)"
    using assms(1,2) by simp
  show "emitted_log (step s (Resume k i))
           = emitted_log s
             @ [run_error (run_id r)
                  (if message e = [] then ''Unknown error'' else message e)]"
    using rejected_step(2) [OF assms(1-4)] by (simp add: message_or_unknown_def)
  show "listeners (run_id r) (run_error (run_id r) text) = ([error_event text], False)"
    by simp
qed

theorem timeout_stored_as_failure_witness:
  "tasks (run spawned) ! 0 = AwaitChild 0 1000
   \<and> timedOut timeout_error
   \<and> files (step (step (run spawned) (Resume 0 (later_inputs\<lparr>child := Rejected timeout_error\<rparr>)))
               (Resume 0 later_inputs)) ''run-1.json''
       = Some (Json (sample_running
            \<lparr>status := Failed,
             timestamps := \<lparr>queued = 1000, started = Some 1000, completed = Some 2000\<rparr>,
             results := Some \<lparr>exitCode = 1, durationMs = 1000\<rparr>\<rparr>))
   \<and> emitted_log (step (run spawned) (Resume 0 (later_inputs\<lparr>child := Rejected timeout_error\<rparr>)))
       = [run_start ''run-1'',
          run_error ''run-1'' ''Command timed out after 600000 milliseconds: node'']"
proof -
  have t: "tasks (run spawned) ! 0 = AwaitChild 0 1000" "0 < length (tasks (run spawned))"
    and h: "heap (run spawned) 0
              = Some \<lparr>run_id = ''run-1'', run_options = sample_options,
                      metadata = sample_running\<rparr>"
    by (simp_all add: run_spawned init_def)
  have c: "child (later_inputs\<lparr>child := Rejected timeout_error\<rparr>) = Rejected timeout_error"
    and j: "mkdir_ok later_inputs" "writeFile_ok later_inputs"
    by (simp_all add: later_inputs_def sample_inputs_def)
  show ?thesis
    using timeout_stored_as_failure [OF t(2) t(1) h c j, of False] t(1)
    by (simp add: run_spawned init_def timeout_error_def exitCode_or_1_def sample_running_def
        sample_queued_def new_metadata_def runs_file_def later_inputs_def sample_inputs_def)
qed

text \<open>The claim as the specification states it fails: the run killed at the timeout
  and the run whose child exited with code 1 leave the same stored record, so the
  record carries nothing that tells them apart.\<close>

theorem timeout_stored_as_failure_counterexample:
  "timedOut timeout_error \<and> \<not> timedOut exit_1_error
   \<and> files (run (finished (Rejected timeout_error))) ''run-1.json''
       = Some (Json (finished_record (Rejected timeout_error)))
   \<and> files (run (finished (Rejected exit_1_error))) ''run-1.json''
       = Some (Json (finished_record (Rejected timeout_error)))"
  by (simp add: run_finished finished_rejected init_def timeout_error_def exit_1_error_def
      exitCode_or_1_def)

text \<open>
  C6, as the code has it. When the child cannot be spawned, the rejection carries no
  exit code: the run gets status \<^verbatim>\<open>failed\<close> and the exit code 1, the same as a child
  that ran and exited with 1; the message of the error is emitted as \<^verbatim>\<open>run:error\<close>,
  which the stream relays as an \<^verbatim>\<open>error\<close> event, and it is written to no file, neither
  by that step nor into the record stored next; and the run is not retried: a run that
  has left the queue never returns to it, a run that has the status \<^verbatim>\<open>completed\<close> or
  \<^verbatim>\<open>failed\<close> in a state the service reaches keeps its id and a terminal status after
  any events that follow and is never \<^verbatim>\<open>running\<close> again, and the run whose child was
  rejected is \<^verbatim>\<open>failed\<close> and not \<^verbatim>\<open>running\<close> after that step and after any events that
  follow it.
\<close>

theorem spawn_failure_reported:
  "(heap s a = Some r \<and> child i = Rejected e \<and> exitCode' e = None \<longrightarrow>
      (\<exists>r'. heap (executeRun_settle a startTime i s) a = Some r'
           \<and> status (metadata r') = Failed
           \<and> results (metadata r') = Some \<lparr>exitCode = 1, durationMs = Date_now i - startTime\<rparr>)
      \<and> emitted_log (executeRun_settle a startTime i s)
          = emitted_log s @ [run_error (run_id r) (message_or_unknown e)]
      \<and> files (executeRun_settle a startTime i s) = files s
      \<and> (k < length (tasks s) \<and> tasks s ! k = AwaitChild a startTime
           \<and> mkdir_ok j \<and> writeFile_ok j \<longrightarrow>
          files (step (step s (Resume k i)) (Resume (length (tasks s) - 1) j))
            (runs_file (id' (metadata r)))
          = Some (Json ((metadata r)
               \<lparr>status := Failed,
                timestamps := (timestamps (metadata r))\<lparr>completed := Some (new_Date i)\<rparr>,
                results := Some \<lparr>exitCode = 1, durationMs = Date_now i - startTime\<rparr>\<rparr>))))
   \<and> listeners runId (run_error runId text) = ([error_event text], False)
   \<and> (heap (run evs) c \<noteq> None \<and> c \<notin> set (queue (run evs)) \<longrightarrow>
        c \<notin> set (queue (step (run evs) ev)))
   \<and> (heap (run past) d = Some rt
        \<and> (status (metadata rt) = Completed \<or> status (metadata rt) = Failed) \<longrightarrow>
        (\<exists>r'. heap (run (past @ later)) d = Some r' \<and> run_id r' = run_id rt
              \<and> (status (metadata r') = Completed \<or> status (metadata r') = Failed))
        \<and> \<not> running_at (run (past @ later)) d)
   \<and> (k < length (tasks (run evs)) \<and> tasks (run evs) ! k = AwaitChild c startTime
        \<and> child i = Rejected e \<longrightarrow>
        (\<exists>r'. heap (run (evs @ Resume k i # later)) c = Some r'
              \<and> status (metadata r') = Failed)
        \<and> \<not> running_at (run (evs @ Resume k i # later)) c)"
proof -
  have 1: "heap s a = Some r \<and> child i = Rejected e \<and> exitCode' e = None \<longrightarrow>
      (\<exists>r'. heap (executeRun_settle a startTime i s) a = Some r'
           \<and> status (metadata r') = Failed
           \<and> results (metadata r') = Some \<lparr>exitCode = 1, durationMs = Date_now i - startTime\<rparr>)
      \<and> emitted_log (executeRun_settle a startTime i s)
          = emitted_log s @ [run_error (run_id r) (message_or_unknown e)]
      \<and> files (executeRun_settle a startTime i s) = files s
      \<and> (k < length (tasks s) \<and> tasks s ! k = AwaitChild a startTime
           \<and> mkdir_ok j \<and> writeFile_ok j \<longrightarrow>
          files (step (step s (Resume k i)) (Resume (length (tasks s) - 1) j))
            (runs_file (id' (metadata r)))
          = Some (Json ((metadata r)
               \<lparr>status := Failed,
                timestamps := (timestamps (metadata r))\<lparr>completed := Some (new_Date i)\<rparr>,
                results := Some \<lparr>exitCode = 1, durationMs = Date_now i - startTime\<rparr>\<rparr>)))"
  proof (intro conjI impI)
    assume a: "heap s a = Some r \<and> child i = Rejected e \<and> exitCode' e = None"
    then have s': "executeRun_settle a startTime i s =
           suspend (AwaitMkdir SaveFinal a)
             (emit (run_error (run_id r) (message_or_unknown e))
               (update_metadata a
                  (\<lambda>m. m\<lparr>status := Failed,
                          timestamps := (timestamps m)\<lparr>completed := Some (new_Date i)\<rparr>,
                          results := Some \<lparr>exitCode = exitCode_or_1 e,
                                            durationMs = Date_now i - startTime\<rparr>\<rparr>) s))"
      by (intro settle_rejected) simp_all
    from a have one: "exitCode_or_1 e = 1" by (simp add: exitCode_or_1_def)
    show "\<exists>r'. heap (executeRun_settle a startTime i s) a = Some r'
           \<and> status (metadata r') = Failed
           \<and> results (metadata r') = Some \<lparr>exitCode = 1, durationMs = Date_now i - startTime\<rparr>"
      using a one by (simp add: s')
    show "emitted_log (executeRun_settle a startTime i s)
          = emitted_log s @ [run_error (run_id r) (message_or_unknown e)]"
      by (simp add: s')
    show "files (executeRun_settle a startTime i s) = files s"
      by (simp add: s')
    show "files (step (step s (Resume k i)) (Resume (length (tasks s) - 1) j))
            (runs_file (id' (metadata r)))
          = Some (Json ((metadata r)
               \<lparr>status := Failed,
                timestamps := (timestamps (metadata r))\<lparr>completed := Some (new_Date i)\<rparr>,
                results := Some \<lparr>exitCode = 1, durationMs = Date_now i - startTime\<rparr>\<rparr>))"
      if "k < length (tasks s) \<and> tasks s ! k = AwaitChild a startTime
           \<and> mkdir_ok j \<and> writeFile_ok j"
      using stored_after_rejection [of k s a startTime r i e j] that a one by simp
  qed
  have 2: "listeners runId (run_error runId text) = ([error_event text], False)" by simp
  have 3: "heap (run evs) c \<noteq> None \<and> c \<notin> set (queue (run evs)) \<longrightarrow>
        c \<notin> set (queue (step (run evs) ev))"
  proof
    assume c: "heap (run evs) c \<noteq> None \<and> c \<notin> set (queue (run evs))"
    then have "c \<noteq> next_addr (run evs)" using fresh_run [of evs] by auto
    with c show "c \<notin> set (queue (step (run evs) ev))"
      using queue_step [of "run evs" ev] by auto
  qed
  have 4: "heap (run past) d = Some rt
        \<and> (status (metadata rt) = Completed \<or> status (metadata rt) = Failed) \<longrightarrow>
        (\<exists>r'. heap (run (past @ later)) d = Some r' \<and> run_id r' = run_id rt
              \<and> (status (metadata r') = Completed \<or> status (metadata r') = Failed))
        \<and> \<not> running_at (run (past @ later)) d"
  proof
    assume "heap (run past) d = Some rt
        \<and> (status (metadata rt) = Completed \<or> status (metadata rt) = Failed)"
    then have "\<exists>r'. heap (run (past @ later)) d = Some r' \<and> run_id r' = run_id rt
           \<and> (status (metadata r') = Completed \<or> status (metadata r') = Failed)"
      using terminal_run [of past d rt later] by blast
    then show "(\<exists>r'. heap (run (past @ later)) d = Some r' \<and> run_id r' = run_id rt
              \<and> (status (metadata r') = Completed \<or> status (metadata r') = Failed))
        \<and> \<not> running_at (run (past @ later)) d"
      by (auto simp: running_at_def)
  qed
  have 5: "k < length (tasks (run evs)) \<and> tasks (run evs) ! k = AwaitChild c startTime
        \<and> child i = Rejected e \<longrightarrow>
        (\<exists>r'. heap (run (evs @ Resume k i # later)) c = Some r'
              \<and> status (metadata r') = Failed)
        \<and> \<not> running_at (run (evs @ Resume k i # later)) c"
  proof
    assume "k < length (tasks (run evs)) \<and> tasks (run evs) ! k = AwaitChild c startTime
        \<and> child i = Rejected e"
    then have "\<exists>r'. heap (run (evs @ Resume k i # later)) c = Some r'
           \<and> status (metadata r') = Failed \<and> artifacts (metadata r') = no_artifacts"
      using rejected_run [of k evs c startTime i e later] by blast
    then show "(\<exists>r'. heap (run (evs @ Resume k i # later)) c = Some r'
              \<and> status (metadata r') = Failed)
        \<and> \<not> running_at (run (evs @ Resume k i # later)) c"
      by (auto simp: running_at_def)
  qed
  from 1 2 3 4 5 show ?thesis by (intro conjI)
qed

theorem spawn_failure_reported_witness:
  "heap (run spawned) 0
     = Some \<lparr>run_id = ''run-1'', run_options = sample_options, metadata = sample_running\<rparr>
   \<and> exitCode' spawn_error = None
   \<and> emitted_log (executeRun_settle 0 1000 (later_inputs\<lparr>child := Rejected spawn_error\<rparr>)
                    (run spawned))
       = [run_start ''run-1'', run_error ''run-1'' ''spawn node ENOENT'']
   \<and> files (step (step (run spawned) (Resume 0 (later_inputs\<lparr>child := Rejected spawn_error\<rparr>)))
               (Resume 0 later_inputs)) ''run-1.json''
       = Some (Json (sample_running
            \<lparr>status := Failed,
             timestamps := \<lparr>queued = 1000, started = Some 1000, completed = Some 2000\<rparr>,
             results := Some \<lparr>exitCode = 1, durationMs = 1000\<rparr>\<rparr>))
   \<and> 0 \<notin> set (queue (run spawned))
   \<and> 0 \<notin> set (queue (step (run spawned)
                           (Resume 0 (later_inputs\<lparr>child := Rejected spawn_error\<rparr>))))
   \<and> tasks (run spawned) ! 0 = AwaitChild 0 1000
   \<and> \<not> running_at
         (run (spawned @ Resume 0 (later_inputs\<lparr>child := Rejected spawn_error\<rparr>)
                 # [Resume 0 later_inputs, Resume 0 later_inputs,
                    POST sample_body later_inputs, Resume 0 later_inputs,
                    Resume 0 later_inputs])) 0
   \<and> heap (run (finished (Rejected spawn_error))) 0
       = Some \<lparr>run_id = ''run-1'', run_options = sample_options,
               metadata = finished_record (Rejected spawn_error)\<rparr>
   \<and> status (finished_record (Rejected spawn_error)) = Failed
   \<and> \<not> running_at
         (run (finished (Rejected spawn_error)
                 @ [POST sample_body later_inputs, Resume 0 later_inputs,
                    Resume 0 later_inputs])) 0"
proof -
  have h: "heap (run spawned) 0
     = Some \<lparr>run_id = ''run-1'', run_options = sample_options, metadata = sample_running\<rparr>"
    and t: "tasks (run spawned) = [AwaitChild 0 1000]" and q: "queue (run spawned) = []"
    and l: "emitted_log (run spawned) = [run_start ''run-1'']"
    by (simp_all add: run_spawned init_def)
  have f: "heap (run (finished (Rejected spawn_error))) 0
       = Some \<lparr>run_id = ''run-1'', run_options = sample_options,
               metadata = finished_record (Rejected spawn_error)\<rparr>"
    "status (finished_record (Rejected spawn_error)) = Failed"
    by (simp_all add: run_finished finished_rejected init_def)
  have after: "\<not> running_at
         (run (finished (Rejected spawn_error)
                 @ [POST sample_body later_inputs, Resume 0 later_inputs,
                    Resume 0 later_inputs])) 0"
    using spawn_failure_reported
      [of _ _ _ _ _ _ _ _ _ _ _ _ _ "finished (Rejected spawn_error)" 0
        "\<lparr>run_id = ''run-1'', run_options = sample_options,
          metadata = finished_record (Rejected spawn_error)\<rparr>"
        "[POST sample_body later_inputs, Resume 0 later_inputs, Resume 0 later_inputs]"]
      f
    by simp
  have "heap (run spawned) 0
     = Some \<lparr>run_id = ''run-1'', run_options = sample_options, metadata = sample_running\<rparr>
   \<and> exitCode' spawn_error = None
   \<and> emitted_log (executeRun_settle 0 1000 (later_inputs\<lparr>child := Rejected spawn_error\<rparr>)
                    (run spawned))
       = [run_start ''run-1'', run_error ''run-1'' ''spawn node ENOENT'']
   \<and> files (step (step (run spawned) (Resume 0 (later_inputs\<lparr>child := Rejected spawn_error\<rparr>)))
               (Resume 0 later_inputs)) ''run-1.json''
       = Some (Json (sample_running
            \<lparr>status := Failed,
             timestamps := \<lparr>queued = 1000, started = Some 1000, completed = Some 2000\<rparr>,
             results := Some \<lparr>exitCode = 1, durationMs = 1000\<rparr>\<rparr>))
   \<and> 0 \<notin> set (queue (run spawned))
   \<and> 0 \<notin> set (queue (step (run spawned)
                           (Resume 0 (later_inputs\<lparr>child := Rejected spawn_error\<rparr>))))
   \<and> tasks (run spawned) ! 0 = AwaitChild 0 1000
   \<and> \<not> running_at
         (run (spawned @ Resume 0 (later_inputs\<lparr>child := Rejected spawn_error\<rparr>)
                 # [Resume 0 later_inputs, Resume 0 later_inputs,
                    POST sample_body later_inputs, Resume 0 later_inputs,
                    Resume 0 later_inputs])) 0"
    using spawn_failure_reported
      [of "run spawned" 0
        "\<lparr>run_id = ''run-1'', run_options = sample_options, metadata = sample_running\<rparr>"
        "later_inputs\<lparr>child := Rejected spawn_error\<rparr>" spawn_error 1000 0 later_inputs
        "''run-1''" "''spawn node ENOENT''" spawned 0
        "Resume 0 (later_inputs\<lparr>child := Rejected spawn_error\<rparr>)" _ _ _
        "[Resume 0 later_inputs, Resume 0 later_inputs,
          POST sample_body later_inputs, Resume 0 later_inputs, Resume 0 later_inputs]"]
      h t q l
    by (simp add: spawn_error_def message_or_unknown_def later_inputs_def sample_inputs_def
        sample_running_def sample_queued_def new_metadata_def runs_file_def)
  with f after show ?thesis by simp
qed

text \<open>The claim as the specification states it fails: the exit code stored for the
  child that was never spawned is the one stored for a child that exited with 1, so
  it is not reserved; and the error text goes out as \<^verbatim>\<open>run:error\<close>: no \<^verbatim>\<open>run:stderr\<close> is
  emitted.\<close>

theorem spawn_failure_reported_counterexample:
  "exitCode' spawn_error = None \<and> exitCode' exit_1_error = Some 1
   \<and> files (run (finished (Rejected spawn_error)))
       = files (run (finished (Rejected exit_1_error)))
   \<and> emitted_log (run (finished (Rejected spawn_error)))
       = [run_start ''run-1'', run_error ''run-1'' ''spawn node ENOENT'',
          run_complete ''run-1'' (finished_record (Rejected spawn_error))]
   \<and> (\<forall>chunk. run_stderr ''run-1'' chunk
          \<notin> set (emitted_log (run (finished (Rejected spawn_error)))))"
  by (simp add: run_finished finished_rejected init_def spawn_error_def exit_1_error_def
      exitCode_or_1_def message_or_unknown_def)

end
